theory Spec2Isabelle
  imports Main
begin

section \<open>The property tree of qtproperty.cpp\<close>

text \<open>
  The objects of the program live on the C++ heap and refer to each other by pointer:
  a node holds the list of its children and a back pointer to its parent. The model keeps
  an explicit store from addresses to objects, the table of signal connections that
  \<open>connect\<close> and \<open>disconnect\<close> maintain, and the sequence of signals emitted so far.
  Every member function takes the store and returns the store it leaves behind.
\<close>

subsection \<open>Values\<close>

type_synonym addr = nat

text \<open>
  \<open>QVariant\<close>: the invalid (null) variant, scalars, \<open>QVariantList\<close> and \<open>QVariantMap\<close>.
  A \<open>QVariantMap\<close> is a \<open>QMap\<close>: its entries are kept in key order, one per key.
  Of the floating-point values only \<open>VNaN\<close> is represented, a \<open>double\<close> holding NaN:
  it is the scalar that Qt's comparison finds different from itself.
\<close>

datatype variant =
    Null
  | VInt int
  | VNaN
  | VString string
  | VList "variant list"
  | VMap "(string \<times> variant) list"

text \<open>
  The program compares values with \<open>QVariant::operator==\<close> and \<open>operator!=\<close> (lines 41,
  179, 216, 235 and 255). These belong to Qt, not to the program: the comparison converts
  between types before it compares (the integer 1 equals the string \<open>"1"\<close>), and it is not
  reflexive, since NaN differs from NaN. It is not equality of the datatype, then, and
  every function below that compares values takes the comparison as its first argument
  \<open>equals\<close>: \<open>equals a b\<close> is the value of \<^verbatim>\<open>a == b\<close>, and \<^verbatim>\<open>a != b\<close> is its
  negation, as Qt defines it. Nothing is assumed of \<open>equals\<close> but what a statement says.
\<close>

fun toList :: "variant \<Rightarrow> variant list" where
  "toList (VList xs) = xs"
| "toList Null = []"
| "toList (VInt i) = []"
| "toList VNaN = []"
| "toList (VString s) = []"
| "toList (VMap m) = []"

fun toMap :: "variant \<Rightarrow> (string \<times> variant) list" where
  "toMap (VMap m) = m"
| "toMap Null = []"
| "toMap (VInt i) = []"
| "toMap VNaN = []"
| "toMap (VString s) = []"
| "toMap (VList xs) = []"

text \<open>\<open>QMap::value(key)\<close>: the entry, or a default-constructed \<open>QVariant\<close>.\<close>

definition map_value :: "(string \<times> variant) list \<Rightarrow> string \<Rightarrow> variant" where
  "map_value m k = (case map_of m k of None \<Rightarrow> Null | Some v \<Rightarrow> v)"

text \<open>The order of \<open>QString\<close> keys, character by character.\<close>

fun string_less :: "string \<Rightarrow> string \<Rightarrow> bool" where
  "string_less [] [] = False"
| "string_less [] (y # ys) = True"
| "string_less (x # xs) [] = False"
| "string_less (x # xs) (y # ys) =
     ((of_char x :: nat) < of_char y \<or> (x = y \<and> string_less xs ys))"

text \<open>\<open>valueMap[key] = v\<close>: replaces the entry of the key or inserts it at its place.\<close>

fun map_assign :: "string \<Rightarrow> variant \<Rightarrow> (string \<times> variant) list \<Rightarrow> (string \<times> variant) list" where
  "map_assign k v [] = [(k, v)]"
| "map_assign k v ((k', v') # m) =
     (if k = k' then (k, v) # m
      else if string_less k k' then (k, v) # (k', v') # m
      else (k', v') # map_assign k v m)"

text \<open>
  \<open>ensureSize\<close> (lines 163-169): the loop appends null variants while the list is
  shorter than \<open>size\<close>. Sizes are C++ \<open>int\<close>s.
\<close>

function ensureSize :: "variant list \<Rightarrow> int \<Rightarrow> variant list" where
  "ensureSize lst sz =
     (if int (length lst) < sz then ensureSize (lst @ [Null]) sz else lst)"
  by pat_completeness auto
termination
  by (relation "measure (\<lambda>(lst, sz). nat (sz - int (length lst)))") auto

declare ensureSize.simps [simp del]

text \<open>
  \<open>QVariant::toString\<close>: a string is itself, an integer is written in decimal, NaN is
  written \<open>nan\<close>, and the null variant, lists and maps have no string form and give the
  empty string.
\<close>

definition digit_char :: "nat \<Rightarrow> char" where
  "digit_char d = ''0123456789'' ! d"

function nat_toString :: "nat \<Rightarrow> string" where
  "nat_toString n =
     (if n < 10 then [digit_char n] else nat_toString (n div 10) @ [digit_char (n mod 10)])"
  by pat_completeness auto
termination
  by (relation "measure id") auto

declare nat_toString.simps [simp del]

definition int_toString :: "int \<Rightarrow> string" where
  "int_toString i = (if i < 0 then CHR ''-'' # nat_toString (nat (- i)) else nat_toString (nat i))"

fun toString :: "variant \<Rightarrow> string" where
  "toString (VString s) = s"
| "toString (VInt i) = int_toString i"
| "toString VNaN = ''nan''"
| "toString Null = []"
| "toString (VList xs) = []"
| "toString (VMap m) = []"

subsection \<open>Objects, the store and the signals\<close>

text \<open>
  The dynamic class of an object decides which override a virtual call reaches.
  \<open>QtContainerProperty\<close> is abstract; the three containers derive from it.
\<close>

datatype prop_class = QtProperty | QtListProperty | QtDictProperty | QtGroupProperty

text \<open>
  The data members \<^verbatim>\<open>type_\<close>, \<^verbatim>\<open>name_\<close>, \<^verbatim>\<open>value_\<close>, \<^verbatim>\<open>children_\<close> and \<^verbatim>\<open>parent_\<close> are
  the fields \<open>m_type\<close>, \<open>m_name\<close>, \<open>m_value\<close>, \<open>m_children\<close> and \<open>m_parent\<close> (a name cannot end
  with an underscore here); \<open>cls\<close> is the dynamic class. A \<open>NULL\<close> parent is \<open>None\<close>.
\<close>

record property =
  cls :: prop_class
  m_type :: int
  m_name :: string
  m_value :: variant
  m_children :: "addr list"
  m_parent :: "addr option"

text \<open>
  The signals, each with its sender and its arguments:
  \<open>signalValueChange(property)\<close>, \<open>signalPropertyInserted(child, parent)\<close> and
  \<open>signalPropertyRemoved(child, parent)\<close>, where the parent of a removal may be \<open>NULL\<close>.
\<close>

datatype event =
    ValueChange addr addr
  | PropertyInserted addr addr addr
  | PropertyRemoved addr addr "addr option"

text \<open>
  \<open>conns\<close> holds the connections from a sender's \<open>signalValueChange\<close> to a receiver's
  \<open>slotChildValueChange\<close>, in the order they were made.
\<close>

record world =
  heap :: "addr \<Rightarrow> property"
  conns :: "(addr \<times> addr) list"
  events :: "event list"

datatype error = AssertionFailed | IndexOutOfRange | OutOfFuel

definition upd :: "addr \<Rightarrow> (property \<Rightarrow> property) \<Rightarrow> world \<Rightarrow> world" where
  "upd a f w = w\<lparr>heap := (heap w)(a := f (heap w a))\<rparr>"

definition emit :: "event \<Rightarrow> world \<Rightarrow> world" where
  "emit e w = w\<lparr>events := events w @ [e]\<rparr>"

definition connect :: "addr \<Rightarrow> addr \<Rightarrow> world \<Rightarrow> world" where
  "connect sender receiver w = w\<lparr>conns := conns w @ [(sender, receiver)]\<rparr>"

definition disconnect :: "addr \<Rightarrow> addr \<Rightarrow> world \<Rightarrow> world" where
  "disconnect sender receiver w = w\<lparr>conns := filter (\<lambda>c. c \<noteq> (sender, receiver)) (conns w)\<rparr>"

definition receivers :: "world \<Rightarrow> addr \<Rightarrow> addr list" where
  "receivers w sender = map snd (filter (\<lambda>c. fst c = sender) (conns w))"

subsection \<open>Linking and unlinking (lines 6-107)\<close>

text \<open>The constructor (lines 6-14): no parent, no children, a null value, an empty name.\<close>

definition construct :: "world \<Rightarrow> addr \<Rightarrow> prop_class \<Rightarrow> int \<Rightarrow> world" where
  "construct w this c t =
     upd this (\<lambda>_. \<lparr>cls = c, m_type = t, m_name = [], m_value = Null,
                    m_children = [], m_parent = None\<rparr>) w"

definition setName :: "world \<Rightarrow> addr \<Rightarrow> string \<Rightarrow> world" where
  "setName w this name = upd this (\<lambda>p. p\<lparr>m_name := name\<rparr>) w"

text \<open>
  \<open>onChildAdd\<close> and \<open>onChildRemove\<close> are virtual: empty in \<open>QtProperty\<close> (lines 135-143),
  connecting and disconnecting in \<open>QtContainerProperty\<close> (lines 152-160). The class is an
  argument, because a destructor calls the version of the class being destroyed.
\<close>

definition onChildAdd :: "prop_class \<Rightarrow> world \<Rightarrow> addr \<Rightarrow> addr \<Rightarrow> world" where
  "onChildAdd c w this child = (if c = QtProperty then w else connect child this w)"

definition onChildRemove :: "prop_class \<Rightarrow> world \<Rightarrow> addr \<Rightarrow> addr \<Rightarrow> world" where
  "onChildRemove c w this child = (if c = QtProperty then w else disconnect child this w)"

text \<open>\<open>addChild\<close> (lines 68-76).\<close>

definition addChild :: "world \<Rightarrow> addr \<Rightarrow> addr \<Rightarrow> error + world" where
  "addChild w this child =
     (if m_parent (heap w child) \<noteq> None then Inl AssertionFailed
      else
        let w1 = upd this (\<lambda>p. p\<lparr>m_children := m_children p @ [child]\<rparr>) w;
            w2 = upd child (\<lambda>p. p\<lparr>m_parent := Some this\<rparr>) w1;
            w3 = onChildAdd (cls (heap w2 this)) w2 this child
        in Inr (emit (PropertyInserted this child this) w3))"

text \<open>
  \<open>removeChild\<close> (lines 78-90): \<open>std::find\<close> and \<open>erase\<close> remove the first occurrence.
  \<open>removeChild_as c\<close> is the body run on an object whose dynamic class is \<open>c\<close>.
\<close>

definition removeChild_as :: "prop_class \<Rightarrow> world \<Rightarrow> addr \<Rightarrow> addr \<Rightarrow> error + world" where
  "removeChild_as c w this child =
     (if m_parent (heap w child) \<noteq> Some this then Inl AssertionFailed
      else if child \<in> set (m_children (heap w this)) then
        let w1 = upd child (\<lambda>p. p\<lparr>m_parent := None\<rparr>) w;
            w2 = upd this (\<lambda>p. p\<lparr>m_children := remove1 child (m_children p)\<rparr>) w1;
            w3 = onChildRemove c w2 this child
        in Inr (emit (PropertyRemoved this child (Some this)) w3)
      else Inr w)"

definition removeChild :: "world \<Rightarrow> addr \<Rightarrow> addr \<Rightarrow> error + world" where
  "removeChild w this child = removeChild_as (cls (heap w this)) w this child"

text \<open>\<open>removeFromParent\<close> (lines 92-98).\<close>

definition removeFromParent :: "world \<Rightarrow> addr \<Rightarrow> error + world" where
  "removeFromParent w this =
     (case m_parent (heap w this) of
        None \<Rightarrow> Inr w
      | Some p \<Rightarrow> removeChild w p this)"

text \<open>
  \<open>removeAllChildren\<close> (lines 100-107): the loop runs over the copy \<open>temp\<close> taken before
  the first removal.
\<close>

fun removeAllChildren_loop :: "prop_class \<Rightarrow> world \<Rightarrow> addr \<Rightarrow> addr list \<Rightarrow> error + world" where
  "removeAllChildren_loop c w this [] = Inr w"
| "removeAllChildren_loop c w this (child # temp) =
     (case removeChild_as c w this child of
        Inl e \<Rightarrow> Inl e
      | Inr w1 \<Rightarrow> removeAllChildren_loop c w1 this temp)"

definition removeAllChildren_as :: "prop_class \<Rightarrow> world \<Rightarrow> addr \<Rightarrow> error + world" where
  "removeAllChildren_as c w this = removeAllChildren_loop c w this (m_children (heap w this))"

definition removeAllChildren :: "world \<Rightarrow> addr \<Rightarrow> error + world" where
  "removeAllChildren w this = removeAllChildren_as (cls (heap w this)) w this"

text \<open>
  The destructor (lines 16-22). While \<open>~QtProperty\<close> runs the object is a plain
  \<open>QtProperty\<close>, so its own virtual calls reach the base versions; the parent it unlinks
  from is a complete object and dispatches on its own class.
\<close>

definition destructor :: "world \<Rightarrow> addr \<Rightarrow> error + world" where
  "destructor w this =
     (let w0 = emit (PropertyRemoved this this (m_parent (heap w this))) w
      in case removeAllChildren_as QtProperty w0 this of
           Inl e \<Rightarrow> Inl e
         | Inr w1 \<Rightarrow> removeFromParent w1 this)"

text \<open>\<open>indexChild\<close> (lines 109-112): \<open>QList::indexOf\<close> gives the first index, or -1.\<close>

fun indexOf :: "addr list \<Rightarrow> addr \<Rightarrow> int" where
  "indexOf [] x = - 1"
| "indexOf (y # ys) x =
     (if y = x then 0 else (let r = indexOf ys x in if r < 0 then - 1 else r + 1))"

definition indexChild :: "world \<Rightarrow> addr \<Rightarrow> addr \<Rightarrow> int" where
  "indexChild w this child = indexOf (m_children (heap w this)) child"

subsection \<open>Values and their notifications (lines 39-46, 177-262, 271-274, 313-317)\<close>

text \<open>
  \<open>setValue\<close> is virtual, and emitting \<open>signalValueChange\<close> runs the connected slots
  before the emitting call returns: a child's \<open>setValue\<close> inside the loop of a list
  re-enters the list through \<open>slotChildValueChange\<close>. The functions are therefore mutually
  recursive. Nothing in the code bounds the recursion (a node can be linked below
  itself), so each call spends one unit of fuel and \<open>Inl OutOfFuel\<close> stands for a call that
  does not return.

  \<^item> \<open>setValue\<close> dispatches on the class: lines 39-46, 177-193, 233-249 and 271-274;
  \<^item> \<open>QtListProperty_setValue_loop\<close> is the \<open>for\<close> loop of lines 187-190, reading
    \<^verbatim>\<open>children_\<close> again at each step;
  \<^item> \<open>QtDictProperty_setValue_loop\<close> is the \<open>foreach\<close> of lines 242-246, over the copy
    \<open>foreach\<close> takes;
  \<^item> \<open>signalValueChange k w sender property\<close> is \<^verbatim>\<open>emit signalValueChange(property)\<close> in a
    member function of \<open>sender\<close>; \<open>activate\<close> calls the slots connected to it in turn;
  \<^item> \<open>slotChildValueChange\<close> dispatches on the class of the receiver: lines 208-224,
    251-262 and 313-317. A plain \<open>QtProperty\<close> has no such slot and is never connected.

  The five comparisons keep the operands in the order of the source:
  \<^verbatim>\<open>value_ != value\<close> (line 41), \<^verbatim>\<open>value_ == value\<close> (lines 179 and 235),
  \<^verbatim>\<open>valueList[i] != child->getValue()\<close> (line 216) and
  \<^verbatim>\<open>property->getValue() != oldValue\<close> (line 255).
\<close>

definition set_value :: "addr \<Rightarrow> variant \<Rightarrow> world \<Rightarrow> world" where
  "set_value this v w = upd this (\<lambda>p. p\<lparr>m_value := v\<rparr>) w"

function (sequential)
  setValue :: "(variant \<Rightarrow> variant \<Rightarrow> bool) \<Rightarrow> nat \<Rightarrow> world \<Rightarrow> addr \<Rightarrow> variant \<Rightarrow> error + world"
and QtListProperty_setValue_loop ::
      "(variant \<Rightarrow> variant \<Rightarrow> bool) \<Rightarrow> nat \<Rightarrow> world \<Rightarrow> addr \<Rightarrow> variant list \<Rightarrow> nat \<Rightarrow> error + world"
and QtDictProperty_setValue_loop ::
      "(variant \<Rightarrow> variant \<Rightarrow> bool) \<Rightarrow> nat \<Rightarrow> world \<Rightarrow> (string \<times> variant) list \<Rightarrow> addr list \<Rightarrow>
         error + world"
and signalValueChange ::
      "(variant \<Rightarrow> variant \<Rightarrow> bool) \<Rightarrow> nat \<Rightarrow> world \<Rightarrow> addr \<Rightarrow> addr \<Rightarrow> error + world"
and activate ::
      "(variant \<Rightarrow> variant \<Rightarrow> bool) \<Rightarrow> nat \<Rightarrow> world \<Rightarrow> addr list \<Rightarrow> addr \<Rightarrow> error + world"
and slotChildValueChange ::
      "(variant \<Rightarrow> variant \<Rightarrow> bool) \<Rightarrow> nat \<Rightarrow> world \<Rightarrow> addr \<Rightarrow> addr \<Rightarrow> error + world"
where
  "setValue equals 0 w this v = Inl OutOfFuel"
| "setValue equals (Suc k) w this v =
     (case cls (heap w this) of
        QtProperty \<Rightarrow>
          if \<not> equals (m_value (heap w this)) v
          then signalValueChange equals k (set_value this v w) this this
          else Inr w
      | QtListProperty \<Rightarrow>
          if equals (m_value (heap w this)) v then Inr w
          else
            let w1 = set_value this v w;
                valueList = ensureSize (toList v) (int (length (m_children (heap w1 this))))
            in (case QtListProperty_setValue_loop equals k w1 this valueList 0 of
                  Inl e \<Rightarrow> Inl e
                | Inr w2 \<Rightarrow> signalValueChange equals k w2 this this)
      | QtDictProperty \<Rightarrow>
          if equals (m_value (heap w this)) v then Inr w
          else
            let w1 = set_value this v w;
                valueMap = toMap (m_value (heap w1 this))
            in (case QtDictProperty_setValue_loop equals k w1 valueMap
                       (m_children (heap w1 this)) of
                  Inl e \<Rightarrow> Inl e
                | Inr w2 \<Rightarrow> signalValueChange equals k w2 this this)
      | QtGroupProperty \<Rightarrow> Inr w)"
| "QtListProperty_setValue_loop equals 0 w this valueList i = Inl OutOfFuel"
| "QtListProperty_setValue_loop equals (Suc k) w this valueList i =
     (if i < length (m_children (heap w this)) then
        (if i < length valueList then
           (case setValue equals k w (m_children (heap w this) ! i) (valueList ! i) of
              Inl e \<Rightarrow> Inl e
            | Inr w1 \<Rightarrow> QtListProperty_setValue_loop equals k w1 this valueList (Suc i))
         else Inl IndexOutOfRange)
      else Inr w)"
| "QtDictProperty_setValue_loop equals 0 w valueMap cs = Inl OutOfFuel"
| "QtDictProperty_setValue_loop equals (Suc k) w valueMap [] = Inr w"
| "QtDictProperty_setValue_loop equals (Suc k) w valueMap (child # cs) =
     (case setValue equals k w child (map_value valueMap (m_name (heap w child))) of
        Inl e \<Rightarrow> Inl e
      | Inr w1 \<Rightarrow> QtDictProperty_setValue_loop equals k w1 valueMap cs)"
| "signalValueChange equals 0 w sender property = Inl OutOfFuel"
| "signalValueChange equals (Suc k) w sender property =
     activate equals k (emit (ValueChange sender property) w) (receivers w sender) property"
| "activate equals 0 w rs property = Inl OutOfFuel"
| "activate equals (Suc k) w [] property = Inr w"
| "activate equals (Suc k) w (r # rs) property =
     (case slotChildValueChange equals k w r property of
        Inl e \<Rightarrow> Inl e
      | Inr w1 \<Rightarrow> activate equals k w1 rs property)"
| "slotChildValueChange equals 0 w this child = Inl OutOfFuel"
| "slotChildValueChange equals (Suc k) w this child =
     (case cls (heap w this) of
        QtProperty \<Rightarrow> Inr w
      | QtListProperty \<Rightarrow>
          let i = indexChild w this child in
          if i \<ge> 0 then
            let valueList = ensureSize (toList (m_value (heap w this))) (i + 1) in
            if nat i < length valueList then
              if \<not> equals (valueList ! nat i) (m_value (heap w child)) then
                let valueList' = valueList[nat i := m_value (heap w child)];
                    w1 = set_value this (VList valueList') w
                in signalValueChange equals k w1 this this
              else Inr w
            else Inl IndexOutOfRange
          else Inr w
      | QtDictProperty \<Rightarrow>
          let valueMap = toMap (m_value (heap w this));
              oldValue = map_value valueMap (m_name (heap w child)) in
          if \<not> equals (m_value (heap w child)) oldValue then
            let valueMap' = map_assign (m_name (heap w child)) (m_value (heap w child)) valueMap;
                w1 = set_value this (VMap valueMap') w
            in signalValueChange equals k w1 this this
          else Inr w
      | QtGroupProperty \<Rightarrow> signalValueChange equals k w this child)"
  by pat_completeness auto
termination
  by (relation "measure (case_sum (case_sum (fst \<circ> snd) (case_sum (fst \<circ> snd) (fst \<circ> snd)))
                                   (case_sum (fst \<circ> snd) (case_sum (fst \<circ> snd) (fst \<circ> snd))))")
     simp_all

declare setValue.simps [simp del] QtListProperty_setValue_loop.simps [simp del]
  QtDictProperty_setValue_loop.simps [simp del] signalValueChange.simps [simp del]
  activate.simps [simp del] slotChildValueChange.simps [simp del]

subsection \<open>Lookup by name (lines 114-133, 276-311)\<close>

text \<open>\<open>QtProperty::findChild\<close> (lines 114-124): the first direct child of that name.\<close>

fun QtProperty_findChild_loop :: "world \<Rightarrow> addr list \<Rightarrow> string \<Rightarrow> addr option" where
  "QtProperty_findChild_loop w [] name = None"
| "QtProperty_findChild_loop w (child # cs) name =
     (if m_name (heap w child) = name then Some child else QtProperty_findChild_loop w cs name)"

text \<open>
  \<open>findChild\<close> is virtual; \<open>QtGroupProperty::findChild\<close> (lines 276-296) calls it on the
  children whose type tag is \<open>TYPE_GROUP\<close>. The value of that constant is declared in a
  header and is an argument here. \<open>findChild_loop\<close> is the \<open>foreach\<close> of lines 279-294 with
  its \<open>break\<close>.
\<close>

fun findChild :: "int \<Rightarrow> nat \<Rightarrow> world \<Rightarrow> addr \<Rightarrow> string \<Rightarrow> error + addr option"
and QtGroupProperty_findChild_loop ::
      "int \<Rightarrow> nat \<Rightarrow> world \<Rightarrow> addr list \<Rightarrow> string \<Rightarrow> error + addr option"
where
  "findChild TYPE_GROUP 0 w this name = Inl OutOfFuel"
| "findChild TYPE_GROUP (Suc k) w this name =
     (if cls (heap w this) = QtGroupProperty
      then QtGroupProperty_findChild_loop TYPE_GROUP k w (m_children (heap w this)) name
      else Inr (QtProperty_findChild_loop w (m_children (heap w this)) name))"
| "QtGroupProperty_findChild_loop TYPE_GROUP 0 w cs name = Inl OutOfFuel"
| "QtGroupProperty_findChild_loop TYPE_GROUP (Suc k) w [] name = Inr None"
| "QtGroupProperty_findChild_loop TYPE_GROUP (Suc k) w (child # cs) name =
     (case (if name = m_name (heap w child) then Inr (Some child)
            else if m_type (heap w child) = TYPE_GROUP then findChild TYPE_GROUP k w child name
            else Inr None) of
        Inl e \<Rightarrow> Inl e
      | Inr result \<Rightarrow>
          if result \<noteq> None then Inr result
          else QtGroupProperty_findChild_loop TYPE_GROUP k w cs name)"

declare findChild.simps [simp del] QtGroupProperty_findChild_loop.simps [simp del]

text \<open>
  \<open>setChildValue\<close> is virtual: \<open>QtProperty::setChildValue\<close> (lines 126-133) and
  \<open>QtGroupProperty::setChildValue\<close> (lines 298-311).
\<close>

fun setChildValue ::
      "(variant \<Rightarrow> variant \<Rightarrow> bool) \<Rightarrow> int \<Rightarrow> nat \<Rightarrow> world \<Rightarrow> addr \<Rightarrow> string \<Rightarrow> variant \<Rightarrow>
         error + world"
and QtGroupProperty_setChildValue_loop ::
      "(variant \<Rightarrow> variant \<Rightarrow> bool) \<Rightarrow> int \<Rightarrow> nat \<Rightarrow> world \<Rightarrow> addr list \<Rightarrow> string \<Rightarrow> variant \<Rightarrow>
         error + world"
where
  "setChildValue equals TYPE_GROUP 0 w this name v = Inl OutOfFuel"
| "setChildValue equals TYPE_GROUP (Suc k) w this name v =
     (if cls (heap w this) = QtGroupProperty
      then QtGroupProperty_setChildValue_loop equals TYPE_GROUP k w
             (m_children (heap w this)) name v
      else
        (case findChild TYPE_GROUP k w this name of
           Inl e \<Rightarrow> Inl e
         | Inr None \<Rightarrow> Inr w
         | Inr (Some child) \<Rightarrow> setValue equals k w child v))"
| "QtGroupProperty_setChildValue_loop equals TYPE_GROUP 0 w cs name v = Inl OutOfFuel"
| "QtGroupProperty_setChildValue_loop equals TYPE_GROUP (Suc k) w [] name v = Inr w"
| "QtGroupProperty_setChildValue_loop equals TYPE_GROUP (Suc k) w (child # cs) name v =
     (case (if m_type (heap w child) = TYPE_GROUP
            then setChildValue equals TYPE_GROUP k w child name v
            else if name = m_name (heap w child) then setValue equals k w child v
            else Inr w) of
        Inl e \<Rightarrow> Inl e
      | Inr w1 \<Rightarrow> QtGroupProperty_setChildValue_loop equals TYPE_GROUP k w1 cs name v)"

declare setChildValue.simps [simp del] QtGroupProperty_setChildValue_loop.simps [simp del]

subsection \<open>Rendering (lines 48-51, 195-206)\<close>

text \<open>
  \<open>getValueString\<close> is virtual: \<open>QtProperty::getValueString\<close> converts the value, and
  \<open>QtListProperty::getValueString\<close> appends the rendering of each child and a separator
  to \<open>text\<close>.
\<close>

fun getValueString :: "nat \<Rightarrow> world \<Rightarrow> addr \<Rightarrow> error + string"
and QtListProperty_getValueString_loop :: "nat \<Rightarrow> world \<Rightarrow> addr list \<Rightarrow> string \<Rightarrow> error + string"
where
  "getValueString 0 w this = Inl OutOfFuel"
| "getValueString (Suc k) w this =
     (if cls (heap w this) = QtListProperty
      then (case QtListProperty_getValueString_loop k w (m_children (heap w this)) ''('' of
              Inl e \<Rightarrow> Inl e
            | Inr text \<Rightarrow> Inr (text @ '')''))
      else Inr (toString (m_value (heap w this))))"
| "QtListProperty_getValueString_loop 0 w cs text = Inl OutOfFuel"
| "QtListProperty_getValueString_loop (Suc k) w [] text = Inr text"
| "QtListProperty_getValueString_loop (Suc k) w (child # cs) text =
     (case getValueString k w child of
        Inl e \<Rightarrow> Inl e
      | Inr s \<Rightarrow> QtListProperty_getValueString_loop k w cs ((text @ s) @ '', ''))"

declare getValueString.simps [simp del] QtListProperty_getValueString_loop.simps [simp del]

subsection \<open>Notions used to state the properties\<close>

text \<open>A removal notification whose first argument, the removed node, is \<open>n\<close>.\<close>

definition is_removal_of :: "addr \<Rightarrow> event \<Rightarrow> bool" where
  "is_removal_of n e = (case e of PropertyRemoved s c p \<Rightarrow> c = n | _ \<Rightarrow> False)"

text \<open>A small tree used as a concrete instance: a list with two plain children.\<close>

definition node ::
  "prop_class \<Rightarrow> int \<Rightarrow> string \<Rightarrow> variant \<Rightarrow> addr list \<Rightarrow> addr option \<Rightarrow> property" where
  "node c t n v cs p =
     \<lparr>cls = c, m_type = t, m_name = n, m_value = v, m_children = cs, m_parent = p\<rparr>"

definition example_list :: world where
  "example_list =
     \<lparr>heap = (\<lambda>_. node QtProperty 0 [] Null [] None)
        (0 := node QtListProperty 1 ''l'' (VList [VInt 1, VInt 2]) [1, 2] None,
         1 := node QtProperty 0 ''a'' (VInt 1) [] (Some 0),
         2 := node QtProperty 0 ''b'' (VInt 2) [] (Some 0)),
      conns = [(1, 0), (2, 0)],
      events = []\<rparr>"

text \<open>The sender of a notification.\<close>

fun sender :: "event \<Rightarrow> addr" where
  "sender (ValueChange s p) = s"
| "sender (PropertyInserted s c p) = s"
| "sender (PropertyRemoved s c p) = s"

text \<open>
  \<open>same_shape w w'\<close>: the two stores differ at most in the values of the nodes and in the
  notifications emitted.
\<close>

definition same_shape :: "world \<Rightarrow> world \<Rightarrow> bool" where
  "same_shape w w' \<longleftrightarrow>
     conns w' = conns w \<and> (\<forall>a. heap w' a = (heap w a)\<lparr>m_value := m_value (heap w' a)\<rparr>)"

text \<open>
  The links are consistent when the parent pointer of a node and the child sequences
  agree, and no child sequence lists a node twice.
\<close>

definition linked :: "world \<Rightarrow> bool" where
  "linked w \<longleftrightarrow>
     (\<forall>p c. m_parent (heap w c) = Some p \<longleftrightarrow> c \<in> set (m_children (heap w p)))"

definition tree_inv :: "world \<Rightarrow> bool" where
  "tree_inv w \<longleftrightarrow> linked w \<and> (\<forall>p. distinct (m_children (heap w p)))"

text \<open>
  The connections are those \<open>onChildAdd\<close> makes and \<open>onChildRemove\<close> removes: the value
  changes of a node reach its parent, once, when the parent is a container.
\<close>

definition wired :: "world \<Rightarrow> bool" where
  "wired w \<longleftrightarrow>
     (\<forall>s. receivers w s =
        (case m_parent (heap w s) of
           None \<Rightarrow> []
         | Some p \<Rightarrow> if cls (heap w p) = QtProperty then [] else [p]))"

text \<open>
  The links form a forest of bounded height when the nodes can be numbered by depth:
  a child is deeper than its parent, and no deeper than \<open>B\<close>. (The code itself permits
  linking a node below itself; then the recursive calls need not return.)
\<close>

definition layered :: "(addr \<Rightarrow> nat) \<Rightarrow> nat \<Rightarrow> world \<Rightarrow> bool" where
  "layered depth B w \<longleftrightarrow>
     (\<forall>p c. c \<in> set (m_children (heap w p)) \<longrightarrow> depth p < depth c \<and> depth c \<le> B)"

definition wf_tree :: "(addr \<Rightarrow> nat) \<Rightarrow> nat \<Rightarrow> world \<Rightarrow> bool" where
  "wf_tree depth B w \<longleftrightarrow> tree_inv w \<and> wired w \<and> layered depth B w"

text \<open>\<open>ancestor w a c\<close>: \<open>a\<close> is reached from \<open>c\<close> by following parent pointers, at least one.\<close>

inductive ancestor :: "world \<Rightarrow> addr \<Rightarrow> addr \<Rightarrow> bool" for w where
  parent: "m_parent (heap w c) = Some p \<Longrightarrow> ancestor w p c"
| step: "m_parent (heap w c) = Some p \<Longrightarrow> ancestor w a p \<Longrightarrow> ancestor w a c"

text \<open>The depth of the nodes of \<open>example_list\<close>.\<close>

definition example_depth :: "addr \<Rightarrow> nat" where
  "example_depth a = (if a = 0 then 0 else 1)"

text \<open>A sequence padded with null entries up to at least \<open>n\<close> elements.\<close>

definition pad_to :: "nat \<Rightarrow> variant list \<Rightarrow> variant list" where
  "pad_to n xs = xs @ replicate (n - length xs) Null"

text \<open>\<open>below w n a\<close>: \<open>a\<close> is \<open>n\<close> or lies in the subtree under \<open>n\<close>.\<close>

definition below :: "world \<Rightarrow> addr \<Rightarrow> addr \<Rightarrow> bool" where
  "below w n a \<longleftrightarrow> a = n \<or> ancestor w n a"

text \<open>
  \<open>expects w n x\<close>: the composite value of the container above \<open>n\<close> already holds \<open>x\<close> at
  the place of \<open>n\<close>, so that its slot has nothing to update when \<open>n\<close> takes the value \<open>x\<close>
  and the comparison finds \<open>x\<close> equal to itself.
\<close>

definition expects :: "world \<Rightarrow> addr \<Rightarrow> variant \<Rightarrow> bool" where
  "expects w n x \<longleftrightarrow>
     (case m_parent (heap w n) of
        None \<Rightarrow> True
      | Some p \<Rightarrow>
          (case cls (heap w p) of
             QtProperty \<Rightarrow> True
           | QtListProperty \<Rightarrow>
               pad_to (Suc (nat (indexChild w p n))) (toList (m_value (heap w p)))
                 ! nat (indexChild w p n) = x
           | QtDictProperty \<Rightarrow> map_value (toMap (m_value (heap w p))) (m_name (heap w n)) = x
           | QtGroupProperty \<Rightarrow> False))"

text \<open>
  \<open>sinks equals w n x w' evs\<close>: what \<open>setValue x\<close> on \<open>n\<close> does when the container above
  expects \<open>x\<close> and the values pushed down equal themselves: only the subtree under \<open>n\<close>
  changes and sends, and \<open>n\<close> holds \<open>x\<close> unless it is a group or held an equal value.
\<close>

definition sinks ::
  "(variant \<Rightarrow> variant \<Rightarrow> bool) \<Rightarrow> world \<Rightarrow> addr \<Rightarrow> variant \<Rightarrow> world \<Rightarrow> event list \<Rightarrow> bool" where
  "sinks equals w n x w' evs \<longleftrightarrow>
     same_shape w w' \<and> events w' = events w @ evs \<and>
     (\<forall>e \<in> set evs. below w n (sender e)) \<and>
     (\<forall>a. \<not> below w n a \<longrightarrow> heap w' a = heap w a) \<and>
     (cls (heap w n) \<noteq> QtGroupProperty \<and> \<not> equals (m_value (heap w n)) x \<longrightarrow>
        m_value (heap w' n) = x) \<and>
     (cls (heap w n) = QtGroupProperty \<or> equals (m_value (heap w n)) x \<longrightarrow>
        w' = w \<and> evs = [])"

text \<open>
  \<open>self_equal equals x\<close>: the comparison finds \<open>x\<close> equal to itself, and so every value
  nested in \<open>x\<close>, and the null variant, which pads a short sequence and stands for a missing
  entry. These are the values a container takes from \<open>x\<close> for the nodes under it.
\<close>

fun nested_self_equal :: "(variant \<Rightarrow> variant \<Rightarrow> bool) \<Rightarrow> variant \<Rightarrow> bool" where
  "nested_self_equal equals (VList xs) =
     (equals (VList xs) (VList xs) \<and> list_all (nested_self_equal equals) xs)"
| "nested_self_equal equals (VMap m) =
     (equals (VMap m) (VMap m) \<and> list_all (nested_self_equal equals) (map snd m))"
| "nested_self_equal equals x = equals x x"

definition self_equal :: "(variant \<Rightarrow> variant \<Rightarrow> bool) \<Rightarrow> variant \<Rightarrow> bool" where
  "self_equal equals x \<longleftrightarrow> equals Null Null \<and> nested_self_equal equals x"

text \<open>
  The examples are run with the comparison \<open>example_equals\<close>, which stands in for the
  argument \<open>equals\<close> there. On two values of one type it decides as Qt does: null variants
  are equal, integers and strings are compared by value, lists and maps entry by entry, and
  NaN differs from itself. The conversions Qt makes between values of different types are
  not part of it: it takes two such values for different, as Qt does when one of them is
  the null variant, and the examples compare no other values of different types.
\<close>

fun example_equals :: "variant \<Rightarrow> variant \<Rightarrow> bool"
and example_equals_list :: "variant list \<Rightarrow> variant list \<Rightarrow> bool"
and example_equals_map :: "(string \<times> variant) list \<Rightarrow> (string \<times> variant) list \<Rightarrow> bool"
where
  "example_equals Null Null = True"
| "example_equals (VInt i) (VInt j) = (i = j)"
| "example_equals (VString s) (VString t) = (s = t)"
| "example_equals (VList xs) (VList ys) = example_equals_list xs ys"
| "example_equals (VMap m) (VMap n) = example_equals_map m n"
| "example_equals _ _ = False"
| "example_equals_list [] [] = True"
| "example_equals_list (x # xs) (y # ys) = (example_equals x y \<and> example_equals_list xs ys)"
| "example_equals_list _ _ = False"
| "example_equals_map [] [] = True"
| "example_equals_map ((k, x) # m) ((l, y) # n) =
     (k = l \<and> example_equals x y \<and> example_equals_map m n)"
| "example_equals_map _ _ = False"

text \<open>
  \<open>setValue_each equals k w [(c1, x1), ..., (cn, xn)]\<close> calls \<open>c1.setValue(x1)\<close>, ...,
  \<open>cn.setValue(xn)\<close> in turn, each with fuel \<open>k\<close>. This is the loop as the specification
  words it ("for every child, child.setValue(...)"); the loops of the source are compared
  with it below.
\<close>

fun setValue_each ::
  "(variant \<Rightarrow> variant \<Rightarrow> bool) \<Rightarrow> nat \<Rightarrow> world \<Rightarrow> (addr \<times> variant) list \<Rightarrow> error + world" where
  "setValue_each equals k w [] = Inr w"
| "setValue_each equals k w ((c, x) # ps) =
     (case setValue equals k w c x of
        Inl e \<Rightarrow> Inl e
      | Inr w1 \<Rightarrow> setValue_each equals k w1 ps)"

text \<open>A dictionary with two plain children named \<open>a\<close> and \<open>b\<close>.\<close>

definition example_dict :: world where
  "example_dict =
     \<lparr>heap = (\<lambda>_. node QtProperty 0 [] Null [] None)
        (0 := node QtDictProperty 2 ''d'' (VMap [(''a'', VInt 1), (''b'', VInt 2)]) [1, 2] None,
         1 := node QtProperty 0 ''a'' (VInt 1) [] (Some 0),
         2 := node QtProperty 0 ''b'' (VInt 2) [] (Some 0)),
      conns = [(1, 0), (2, 0)],
      events = []\<rparr>"


definition example_single_dict :: world where
  "example_single_dict =
     \<lparr>heap = (\<lambda>_. node QtProperty 0 [] Null [] None)
        (0 := node QtDictProperty 2 ''d'' Null [1] None,
         1 := node QtProperty 0 ''a'' Null [] (Some 0)),
      conns = [(1, 0)],
      events = []\<rparr>"

text \<open>
  The type tag and the class agree when the nodes tagged \<open>TYPE_GROUP\<close> are exactly the
  objects of class \<open>QtGroupProperty\<close>, as they are when every node is created with the tag
  of its class.
\<close>

definition consistent_types :: "int \<Rightarrow> world \<Rightarrow> bool" where
  "consistent_types TYPE_GROUP w \<longleftrightarrow>
     (\<forall>a. m_type (heap w a) = TYPE_GROUP \<longleftrightarrow> cls (heap w a) = QtGroupProperty)"

text \<open>
  \<open>group_walk TYPE_GROUP w cs ns\<close>: \<open>ns\<close> lists the nodes met when walking the sequence
  \<open>cs\<close> in order, each node before what is under it, and going under a node only if it is
  a group. \<open>group_reach TYPE_GROUP w cs a\<close>: \<open>a\<close> is in \<open>cs\<close> or is reached from a node of
  \<open>cs\<close> by a path on which every node before \<open>a\<close> is a group.
\<close>

inductive group_walk :: "int \<Rightarrow> world \<Rightarrow> addr list \<Rightarrow> addr list \<Rightarrow> bool"
  for TYPE_GROUP w where
  nil: "group_walk TYPE_GROUP w [] []"
| group: "m_type (heap w c) = TYPE_GROUP \<Longrightarrow>
          group_walk TYPE_GROUP w (m_children (heap w c)) ms \<Longrightarrow>
          group_walk TYPE_GROUP w cs ns \<Longrightarrow>
          group_walk TYPE_GROUP w (c # cs) (c # ms @ ns)"
| other: "m_type (heap w c) \<noteq> TYPE_GROUP \<Longrightarrow>
          group_walk TYPE_GROUP w cs ns \<Longrightarrow>
          group_walk TYPE_GROUP w (c # cs) (c # ns)"

inductive group_reach :: "int \<Rightarrow> world \<Rightarrow> addr list \<Rightarrow> addr \<Rightarrow> bool"
  for TYPE_GROUP w cs where
  root: "a \<in> set cs \<Longrightarrow> group_reach TYPE_GROUP w cs a"
| deeper: "group_reach TYPE_GROUP w cs b \<Longrightarrow> m_type (heap w b) = TYPE_GROUP \<Longrightarrow>
           a \<in> set (m_children (heap w b)) \<Longrightarrow> group_reach TYPE_GROUP w cs a"

text \<open>
  A group (with \<open>TYPE_GROUP\<close> taken as 3) holding a plain node named \<open>a\<close>, a nested
  group with plain nodes named \<open>x\<close> and \<open>a\<close>, and a list with a plain node named \<open>y\<close>.
\<close>

definition example_group :: world where
  "example_group =
     \<lparr>heap = (\<lambda>_. node QtProperty 0 [] Null [] None)
        (0 := node QtGroupProperty 3 ''root'' Null [1, 2, 4] None,
         1 := node QtProperty 0 ''a'' (VInt 1) [] (Some 0),
         2 := node QtGroupProperty 3 ''sub'' Null [3, 6] (Some 0),
         3 := node QtProperty 0 ''x'' (VInt 2) [] (Some 2),
         4 := node QtListProperty 1 ''lst'' (VList [VInt 3]) [5] (Some 0),
         5 := node QtProperty 0 ''y'' (VInt 3) [] (Some 4),
         6 := node QtProperty 0 ''a'' (VInt 4) [] (Some 2)),
      conns = [(1, 0), (2, 0), (3, 2), (6, 2), (4, 0), (5, 4)],
      events = []\<rparr>"

definition example_group_depth :: "addr \<Rightarrow> nat" where
  "example_group_depth a = (if a = 0 then 0 else if a = 3 \<or> a = 5 \<or> a = 6 then 2 else 1)"

subsection \<open>The stores a program can reach\<close>

text \<open>
  \<open>~QObject\<close> runs after the body of \<open>~QtProperty\<close> and removes every connection from and
  to the object.
\<close>

definition QObject_destroyed :: "world \<Rightarrow> addr \<Rightarrow> world" where
  "QObject_destroyed w this =
     w\<lparr>conns := filter (\<lambda>c. fst c \<noteq> this \<and> snd c \<noteq> this) (conns w)\<rparr>"

text \<open>
  \<open>reachable L w\<close>: the store \<open>w\<close>, with the objects at the addresses \<open>L\<close> alive, results
  from constructing nodes at unused addresses, calling member functions of live nodes
  that return (a failed assertion aborts the program), and destroying live nodes,
  starting where nothing is linked.
\<close>

inductive reachable :: "addr set \<Rightarrow> world \<Rightarrow> bool" where
  start: "\<forall>a. m_children (heap w a) = [] \<and> m_parent (heap w a) = None \<Longrightarrow>
          reachable {} w"
| constructed: "reachable L w \<Longrightarrow> a \<notin> L \<Longrightarrow> reachable (insert a L) (construct w a c t)"
| renamed: "reachable L w \<Longrightarrow> a \<in> L \<Longrightarrow> reachable L (setName w a n)"
| added: "reachable L w \<Longrightarrow> p \<in> L \<Longrightarrow> c \<in> L \<Longrightarrow> addChild w p c = Inr w' \<Longrightarrow>
          reachable L w'"
| removed: "reachable L w \<Longrightarrow> p \<in> L \<Longrightarrow> c \<in> L \<Longrightarrow> removeChild w p c = Inr w' \<Longrightarrow>
            reachable L w'"
| detached: "reachable L w \<Longrightarrow> c \<in> L \<Longrightarrow> removeFromParent w c = Inr w' \<Longrightarrow>
             reachable L w'"
| emptied: "reachable L w \<Longrightarrow> p \<in> L \<Longrightarrow> removeAllChildren w p = Inr w' \<Longrightarrow>
            reachable L w'"
| destroyed: "reachable L w \<Longrightarrow> a \<in> L \<Longrightarrow> destructor w a = Inr w' \<Longrightarrow>
              reachable (L - {a}) (QObject_destroyed w' a)"
| valued: "reachable L w \<Longrightarrow> a \<in> L \<Longrightarrow> setValue equals k w a v = Inr w' \<Longrightarrow>
           reachable L w'"
| child_valued: "reachable L w \<Longrightarrow> a \<in> L \<Longrightarrow>
                 setChildValue equals TYPE_GROUP k w a x v = Inr w' \<Longrightarrow> reachable L w'"

text \<open>The invariant that makes the consistency of the links inductive.\<close>

definition well_linked :: "addr set \<Rightarrow> world \<Rightarrow> bool" where
  "well_linked L w \<longleftrightarrow>
     tree_inv w \<and> (\<forall>a. a \<notin> L \<longrightarrow> m_children (heap w a) = [] \<and> m_parent (heap w a) = None)"

text \<open>A store built by two constructors and one \<open>addChild\<close>.\<close>

definition example_start :: world where
  "example_start = \<lparr>heap = (\<lambda>_. node QtProperty 0 [] Null [] None), conns = [], events = []\<rparr>"

definition example_built :: world where
  "example_built =
     \<lparr>heap = (\<lambda>_. node QtProperty 0 [] Null [] None)
        (0 := node QtListProperty 1 [] Null [1] None,
         1 := node QtProperty 0 [] Null [] (Some 0)),
      conns = [(1, 0)],
      events = [PropertyInserted 0 1 0]\<rparr>"

section \<open>Properties\<close>

subsection \<open>The store after each primitive step\<close>

lemma heap_upd [simp]: "heap (upd a f w) = (heap w)(a := f (heap w a))"
  by (simp add: upd_def)

lemma conns_upd [simp]: "conns (upd a f w) = conns w"
  by (simp add: upd_def)

lemma events_upd [simp]: "events (upd a f w) = events w"
  by (simp add: upd_def)

lemma heap_emit [simp]: "heap (emit e w) = heap w"
  by (simp add: emit_def)

lemma conns_emit [simp]: "conns (emit e w) = conns w"
  by (simp add: emit_def)

lemma events_emit [simp]: "events (emit e w) = events w @ [e]"
  by (simp add: emit_def)

lemma heap_onChildRemove [simp]: "heap (onChildRemove c w this child) = heap w"
  by (simp add: onChildRemove_def disconnect_def)

lemma events_onChildRemove [simp]: "events (onChildRemove c w this child) = events w"
  by (simp add: onChildRemove_def disconnect_def)

lemma conns_onChildRemove [simp]:
  "conns (onChildRemove c w this child) =
     (if c = QtProperty then conns w else filter (\<lambda>x. x \<noteq> (child, this)) (conns w))"
  by (simp add: onChildRemove_def disconnect_def)

lemma heap_onChildAdd [simp]: "heap (onChildAdd c w this child) = heap w"
  by (simp add: onChildAdd_def connect_def)

lemma events_onChildAdd [simp]: "events (onChildAdd c w this child) = events w"
  by (simp add: onChildAdd_def connect_def)

lemma conns_onChildAdd [simp]:
  "conns (onChildAdd c w this child) =
     (if c = QtProperty then conns w else conns w @ [(child, this)])"
  by (simp add: onChildAdd_def connect_def)

lemma removeChild_as_linked:
  assumes "m_parent (heap w child) = Some this" and "child \<in> set (m_children (heap w this))"
  shows "\<exists>w'. removeChild_as c w this child = Inr w' \<and>
           events w' = events w @ [PropertyRemoved this child (Some this)] \<and>
           conns w' = (if c = QtProperty then conns w
                       else filter (\<lambda>x. x \<noteq> (child, this)) (conns w)) \<and>
           (\<forall>a. heap w' a = (heap w a)
              \<lparr>m_children := (if a = this then remove1 child (m_children (heap w a))
                              else m_children (heap w a)),
               m_parent := (if a = child then None else m_parent (heap w a))\<rparr>)"
  using assms by (simp add: removeChild_as_def Let_def)

lemma removeAllChildren_loop_result:
  assumes "distinct temp" and "distinct (m_children (heap w this))"
    and "set temp \<subseteq> set (m_children (heap w this))"
    and "\<forall>c \<in> set temp. m_parent (heap w c) = Some this"
  shows "\<exists>w'. removeAllChildren_loop c0 w this temp = Inr w' \<and>
           events w' = events w @ map (\<lambda>c. PropertyRemoved this c (Some this)) temp \<and>
           conns w' = (if c0 = QtProperty then conns w
                       else filter (\<lambda>x. \<not> (fst x \<in> set temp \<and> snd x = this)) (conns w)) \<and>
           (\<forall>a. heap w' a = (heap w a)
              \<lparr>m_children := (if a = this then filter (\<lambda>c. c \<notin> set temp) (m_children (heap w a))
                              else m_children (heap w a)),
               m_parent := (if a \<in> set temp then None else m_parent (heap w a))\<rparr>)"
  using assms
proof (induction temp arbitrary: w)
  case Nil
  then show ?case by simp
next
  case (Cons c temp)
  from Cons.prems obtain w1 where
    r: "removeChild_as c0 w this c = Inr w1"
    and e: "events w1 = events w @ [PropertyRemoved this c (Some this)]"
    and cn: "conns w1 = (if c0 = QtProperty then conns w
                       else filter (\<lambda>x. x \<noteq> (c, this)) (conns w))"
    and h: "\<And>a. heap w1 a = (heap w a)
              \<lparr>m_children := (if a = this then remove1 c (m_children (heap w a))
                              else m_children (heap w a)),
               m_parent := (if a = c then None else m_parent (heap w a))\<rparr>"
    using removeChild_as_linked [of w c this c0] by auto
  have rm: "remove1 c (m_children (heap w this)) = filter (\<lambda>x. x \<noteq> c) (m_children (heap w this))"
    using Cons.prems(2) by (simp add: distinct_remove1_removeAll removeAll_filter_not_eq) metis
  have "\<exists>w'. removeAllChildren_loop c0 w1 this temp = Inr w' \<and>
           events w' = events w1 @ map (\<lambda>c. PropertyRemoved this c (Some this)) temp \<and>
           conns w' = (if c0 = QtProperty then conns w1
                       else filter (\<lambda>x. \<not> (fst x \<in> set temp \<and> snd x = this)) (conns w1)) \<and>
           (\<forall>a. heap w' a = (heap w1 a)
              \<lparr>m_children := (if a = this then filter (\<lambda>c. c \<notin> set temp) (m_children (heap w1 a))
                              else m_children (heap w1 a)),
               m_parent := (if a \<in> set temp then None else m_parent (heap w1 a))\<rparr>)"
  proof (rule Cons.IH)
    show "distinct temp" using Cons.prems(1) by simp
    show "distinct (m_children (heap w1 this))" using Cons.prems(2) by (simp add: h)
    show "set temp \<subseteq> set (m_children (heap w1 this))"
      using Cons.prems(1,2,3) by (auto simp: h)
    show "\<forall>c\<in>set temp. m_parent (heap w1 c) = Some this"
      using Cons.prems(1,4) by (auto simp: h)
  qed
  then obtain w' where
    r': "removeAllChildren_loop c0 w1 this temp = Inr w'"
    and e': "events w' = events w1 @ map (\<lambda>c. PropertyRemoved this c (Some this)) temp"
    and cn': "conns w' = (if c0 = QtProperty then conns w1
                       else filter (\<lambda>x. \<not> (fst x \<in> set temp \<and> snd x = this)) (conns w1))"
    and h': "\<And>a. heap w' a = (heap w1 a)
              \<lparr>m_children := (if a = this then filter (\<lambda>c. c \<notin> set temp) (m_children (heap w1 a))
                              else m_children (heap w1 a)),
               m_parent := (if a \<in> set temp then None else m_parent (heap w1 a))\<rparr>"
    by blast
  have 1: "removeAllChildren_loop c0 w this (c # temp) = Inr w'"
    using r r' by simp
  have 2: "events w' = events w @ map (\<lambda>c. PropertyRemoved this c (Some this)) (c # temp)"
    using e e' by simp
  have 3: "conns w' = (if c0 = QtProperty then conns w
                       else filter (\<lambda>x. \<not> (fst x \<in> set (c # temp) \<and> snd x = this)) (conns w))"
    unfolding cn' cn by (auto intro!: filter_cong)
  have 4: "\<And>a. heap w' a = (heap w a)
              \<lparr>m_children := (if a = this then filter (\<lambda>x. x \<notin> set (c # temp)) (m_children (heap w a))
                              else m_children (heap w a)),
               m_parent := (if a \<in> set (c # temp) then None else m_parent (heap w a))\<rparr>"
    unfolding h' h using rm by (auto intro!: filter_cong)
  from 1 2 3 4 show ?case by blast
qed

subsection \<open>Removing all children\<close>

text \<open>
  Claim C8. In a node whose \<open>N\<close> children are listed once each and point back to it,
  \<open>removeAllChildren\<close> returns, walks the child sequence as it was before the first
  removal and removes each child exactly once: the notifications it adds are the removal
  of each child, in order (\<open>N\<close> of them), the child sequence is empty afterwards and
  every former child has lost its parent.
\<close>

theorem removeAllChildren_removes_each_child_once:
  assumes "distinct (m_children (heap w this))"
    and "\<forall>c \<in> set (m_children (heap w this)). m_parent (heap w c) = Some this"
  shows "\<exists>w'. removeAllChildren w this = Inr w' \<and>
           m_children (heap w' this) = [] \<and>
           events w' = events w @
             map (\<lambda>c. PropertyRemoved this c (Some this)) (m_children (heap w this)) \<and>
           length (events w') = length (events w) + length (m_children (heap w this)) \<and>
           (\<forall>c \<in> set (m_children (heap w this)). m_parent (heap w' c) = None)"
proof -
  obtain w' where r: "removeAllChildren_loop (cls (heap w this)) w this (m_children (heap w this)) = Inr w'"
    and e: "events w' = events w @
             map (\<lambda>c. PropertyRemoved this c (Some this)) (m_children (heap w this))"
    and h: "\<And>a. heap w' a = (heap w a)
              \<lparr>m_children := (if a = this
                 then filter (\<lambda>c. c \<notin> set (m_children (heap w this))) (m_children (heap w a))
                 else m_children (heap w a)),
               m_parent := (if a \<in> set (m_children (heap w this)) then None
                            else m_parent (heap w a))\<rparr>"
    using removeAllChildren_loop_result
      [of "m_children (heap w this)" w this "cls (heap w this)"] assms
    by auto
  have "removeAllChildren w this = Inr w'"
    using r by (simp add: removeAllChildren_def removeAllChildren_as_def)
  moreover have "m_children (heap w' this) = []"
    by (simp add: h)
  moreover have "\<forall>c \<in> set (m_children (heap w this)). m_parent (heap w' c) = None"
    by (simp add: h)
  ultimately show ?thesis using e by simp
qed

theorem removeAllChildren_removes_each_child_once_witness:
  "distinct (m_children (heap example_list 0)) \<and>
   list_all (\<lambda>c. m_parent (heap example_list c) = Some 0) (m_children (heap example_list 0)) \<and>
   (\<exists>w'. removeAllChildren example_list 0 = Inr w' \<and>
      m_children (heap w' 0) = [] \<and>
      events w' = [PropertyRemoved 0 1 (Some 0), PropertyRemoved 0 2 (Some 0)])"
  using removeAllChildren_removes_each_child_once [of example_list 0]
  by (auto simp: example_list_def node_def)

subsection \<open>Destruction\<close>

lemma filter_eq_distinct:
  "distinct xs \<Longrightarrow> x \<in> set xs \<Longrightarrow> filter (\<lambda>c. c = x) xs = [x]"
  by (induction xs) (auto simp: filter_empty_conv)

text \<open>
  Claim C10. Destroying a node \<open>n\<close> whose links are consistent returns, and among the
  notifications it adds, those that report the removal of \<open>n\<close> itself are: with a
  parent \<open>p\<close>, two notifications \<open>(n, p)\<close>, the first sent by \<open>n\<close> from the destructor and
  the second sent by \<open>p\<close> from its \<open>removeChild\<close>; with no parent, the single notification
  \<open>(n, NULL)\<close>.
\<close>

theorem destructor_removal_notifications:
  assumes "distinct (m_children (heap w n))"
    and "\<forall>c \<in> set (m_children (heap w n)). m_parent (heap w c) = Some n"
    and "\<forall>p. m_parent (heap w n) = Some p \<longrightarrow> n \<in> set (m_children (heap w p))"
  shows "\<exists>w' evs. destructor w n = Inr w' \<and> events w' = events w @ evs \<and>
           filter (is_removal_of n) evs =
             (case m_parent (heap w n) of
                None \<Rightarrow> [PropertyRemoved n n None]
              | Some p \<Rightarrow> [PropertyRemoved n n (Some p), PropertyRemoved p n (Some p)])"
proof -
  let ?cs = "m_children (heap w n)"
  let ?w0 = "emit (PropertyRemoved n n (m_parent (heap w n))) w"
  obtain w1 where r: "removeAllChildren_loop QtProperty ?w0 n ?cs = Inr w1"
    and e: "events w1 = events ?w0 @ map (\<lambda>c. PropertyRemoved n c (Some n)) ?cs"
    and cn: "conns w1 = conns ?w0"
    and h: "\<And>a. heap w1 a = (heap ?w0 a)
              \<lparr>m_children := (if a = n
                 then filter (\<lambda>c. c \<notin> set ?cs) (m_children (heap ?w0 a))
                 else m_children (heap ?w0 a)),
               m_parent := (if a \<in> set ?cs then None else m_parent (heap ?w0 a))\<rparr>"
    using removeAllChildren_loop_result [of ?cs ?w0 n QtProperty] assms(1,2)
    by auto
  have r1: "removeAllChildren_as QtProperty ?w0 n = Inr w1"
    using r by (simp add: removeAllChildren_as_def)
  have d: "destructor w n = removeFromParent w1 n"
    using r1 by (simp add: destructor_def Let_def)
  have self: "n \<in> set ?cs \<longleftrightarrow> m_parent (heap w n) = Some n"
    using assms(2,3) by auto
  have flt: "filter (is_removal_of n) (map (\<lambda>c. PropertyRemoved n c (Some n)) ?cs) =
             map (\<lambda>c. PropertyRemoved n c (Some n)) (filter (\<lambda>c. c = n) ?cs)"
    by (simp add: filter_map comp_def is_removal_of_def)
  have one: "n \<in> set ?cs \<Longrightarrow> filter (\<lambda>c. c = n) ?cs = [n]"
    using assms(1) by (rule filter_eq_distinct)
  have none: "n \<notin> set ?cs \<Longrightarrow> filter (\<lambda>c. c = n) ?cs = []"
    by (auto simp: filter_empty_conv)
  show ?thesis
  proof (cases "m_parent (heap w n)")
    case None
    then have "n \<notin> set ?cs" using self by simp
    then have "removeFromParent w1 n = Inr w1"
      using None by (simp add: removeFromParent_def h)
    then show ?thesis
      using d e None flt none [OF \<open>n \<notin> set ?cs\<close>]
      by (simp add: is_removal_of_def)
  next
    case (Some p)
    show ?thesis
    proof (cases "p = n")
      case True
      then have in_cs: "n \<in> set ?cs" using self Some by simp
      then have "removeFromParent w1 n = Inr w1"
        by (simp add: removeFromParent_def h)
      then show ?thesis
        using d e Some True flt one [OF in_cs]
        by (simp add: is_removal_of_def)
    next
      case False
      then have not_cs: "n \<notin> set ?cs" using self Some by simp
      have pn: "n \<in> set (m_children (heap w p))" using assms(3) Some by simp
      have "m_parent (heap w1 n) = Some p" using not_cs Some by (simp add: h)
      moreover have "n \<in> set (m_children (heap w1 p))" using pn False by (simp add: h)
      ultimately obtain w2 where r2: "removeChild_as (cls (heap w1 p)) w1 p n = Inr w2"
        and e2: "events w2 = events w1 @ [PropertyRemoved p n (Some p)]"
        using removeChild_as_linked [of w1 n p "cls (heap w1 p)"] by auto
      have "removeFromParent w1 n = Inr w2"
        using r2 \<open>m_parent (heap w1 n) = Some p\<close> by (simp add: removeFromParent_def removeChild_def)
      then show ?thesis
        using d e e2 Some flt none [OF not_cs]
        by (simp add: is_removal_of_def)
    qed
  qed
qed

theorem destructor_removal_notifications_witness:
  "distinct (m_children (heap example_list 1)) \<and>
   list_all (\<lambda>c. m_parent (heap example_list c) = Some 1) (m_children (heap example_list 1)) \<and>
   m_parent (heap example_list 1) = Some 0 \<and> 1 \<in> set (m_children (heap example_list 0)) \<and>
   (\<exists>w' evs. destructor example_list 1 = Inr w' \<and> events w' = events example_list @ evs \<and>
      filter (is_removal_of 1) evs = [PropertyRemoved 1 1 (Some 0), PropertyRemoved 0 1 (Some 0)])"
  using destructor_removal_notifications [of example_list 1]
  by (auto simp: example_list_def node_def)

subsection \<open>Fuel\<close>

text \<open>A call that returns with some fuel returns the same store with more.\<close>

lemma fuel_Suc:
  "setValue eq k w this v = Inr w' \<Longrightarrow> setValue eq (Suc k) w this v = Inr w'"
  "QtListProperty_setValue_loop eq k w this vl i = Inr w' \<Longrightarrow>
        QtListProperty_setValue_loop eq (Suc k) w this vl i = Inr w'"
  "QtDictProperty_setValue_loop eq k w vm cs = Inr w' \<Longrightarrow>
        QtDictProperty_setValue_loop eq (Suc k) w vm cs = Inr w'"
  "signalValueChange eq k w s p = Inr w' \<Longrightarrow> signalValueChange eq (Suc k) w s p = Inr w'"
  "activate eq k w rs p = Inr w' \<Longrightarrow> activate eq (Suc k) w rs p = Inr w'"
  "slotChildValueChange eq k w this c = Inr w' \<Longrightarrow>
        slotChildValueChange eq (Suc k) w this c = Inr w'"
proof (induction k arbitrary: w this v w' vl i vm cs s p rs c)
  case 0
  {
    case 1 then show ?case by (simp add: setValue.simps)
  next
    case 2 then show ?case by (simp add: QtListProperty_setValue_loop.simps)
  next
    case 3 then show ?case by (simp add: QtDictProperty_setValue_loop.simps)
  next
    case 4 then show ?case by (simp add: signalValueChange.simps)
  next
    case 5 then show ?case by (simp add: activate.simps)
  next
    case 6 then show ?case by (simp add: slotChildValueChange.simps)
  }
next
  case (Suc k)
  {
    case 1
    then show ?case
      apply (subst setValue.simps(2))
      apply (subst (asm) setValue.simps(2))
      apply (fastforce split: prop_class.splits sum.splits if_splits simp: Let_def dest: Suc.IH)
      done
  next
    case 2
    then show ?case
      apply (subst QtListProperty_setValue_loop.simps(2))
      apply (subst (asm) QtListProperty_setValue_loop.simps(2))
      apply (fastforce split: sum.splits if_splits dest: Suc.IH)
      done
  next
    case 3
    then show ?case
      by (cases cs)
        (fastforce split: sum.splits simp: QtDictProperty_setValue_loop.simps dest: Suc.IH)+
  next
    case 4
    then show ?case
      by (auto simp: signalValueChange.simps dest: Suc.IH)
  next
    case 5
    then show ?case
      by (cases rs) (fastforce split: sum.splits simp: activate.simps dest: Suc.IH)+
  next
    case 6
    then show ?case
      apply (subst slotChildValueChange.simps(2))
      apply (subst (asm) slotChildValueChange.simps(2))
      apply (fastforce split: prop_class.splits sum.splits if_splits simp: Let_def dest: Suc.IH)
      done
  }
qed

subsection \<open>Stores of the same shape, forests\<close>

lemma same_shape_refl [simp]: "same_shape w w"
  by (simp add: same_shape_def)

lemma same_shape_trans: "same_shape w w1 \<Longrightarrow> same_shape w1 w2 \<Longrightarrow> same_shape w w2"
  unfolding same_shape_def
  by (metis (no_types, lifting) property.surjective property.update_convs(4))

lemma same_shape_set_value [simp]: "same_shape w (set_value a v w)"
  by (simp add: same_shape_def set_value_def)

lemma same_shape_emit [simp]: "same_shape w (emit e w)"
  by (simp add: same_shape_def)

lemma same_shape_fields:
  assumes "same_shape w w'"
  shows "m_children (heap w' a) = m_children (heap w a)"
    and "m_parent (heap w' a) = m_parent (heap w a)"
    and "cls (heap w' a) = cls (heap w a)"
    and "m_name (heap w' a) = m_name (heap w a)"
    and "m_type (heap w' a) = m_type (heap w a)"
    and "conns w' = conns w"
    and "receivers w' a = receivers w a"
proof -
  have h: "heap w' a = (heap w a)\<lparr>m_value := m_value (heap w' a)\<rparr>" and c: "conns w' = conns w"
    using assms by (simp_all add: same_shape_def)
  show "m_children (heap w' a) = m_children (heap w a)" by (subst h) simp
  show "m_parent (heap w' a) = m_parent (heap w a)" by (subst h) simp
  show "cls (heap w' a) = cls (heap w a)" by (subst h) simp
  show "m_name (heap w' a) = m_name (heap w a)" by (subst h) simp
  show "m_type (heap w' a) = m_type (heap w a)" by (subst h) simp
  show "conns w' = conns w" by (rule c)
  show "receivers w' a = receivers w a" by (simp add: receivers_def c)
qed

lemma same_shape_wf_tree:
  "same_shape w w' \<Longrightarrow> wf_tree depth B w \<Longrightarrow> wf_tree depth B w'"
  by (simp add: wf_tree_def tree_inv_def linked_def wired_def layered_def same_shape_fields
        cong: option.case_cong)

lemma same_shape_ancestor:
  assumes "same_shape w w'"
  shows "ancestor w' a c \<longleftrightarrow> ancestor w a c"
proof
  assume "ancestor w' a c"
  then show "ancestor w a c"
    by (induction rule: ancestor.induct)
       (auto simp: same_shape_fields [OF assms] intro: ancestor.intros)
next
  assume "ancestor w a c"
  then show "ancestor w' a c"
    by (induction rule: ancestor.induct)
       (auto simp: same_shape_fields [OF assms, symmetric] intro: ancestor.intros)
qed

lemma ancestor_trans: "ancestor w b c \<Longrightarrow> ancestor w a b \<Longrightarrow> ancestor w a c"
  by (induction rule: ancestor.induct) (auto intro: ancestor.intros)

lemma ancestor_depth:
  assumes "wf_tree depth B w"
  shows "ancestor w a c \<Longrightarrow> depth a < depth c"
proof (induction rule: ancestor.induct)
  case (parent c p)
  then have "c \<in> set (m_children (heap w p))"
    using assms by (simp add: wf_tree_def tree_inv_def linked_def)
  then show ?case using assms by (simp add: wf_tree_def layered_def)
next
  case (step c p a)
  then have "c \<in> set (m_children (heap w p))"
    using assms by (simp add: wf_tree_def tree_inv_def linked_def)
  then have "depth p < depth c" using assms by (simp add: wf_tree_def layered_def)
  then show ?case using step.IH by simp
qed

subsection \<open>Padding and indices\<close>

lemma ensureSize_eq: "ensureSize lst sz = lst @ replicate (nat (sz - int (length lst))) Null"
proof (induction lst sz rule: ensureSize.induct)
  case (1 lst sz)
  show ?case
  proof (cases "int (length lst) < sz")
    case True
    then have "nat (sz - int (length lst)) = Suc (nat (sz - int (length (lst @ [Null]))))"
      by simp
    then show ?thesis
      using 1 True by (subst ensureSize.simps) (simp add: replicate_app_Cons_same)
  next
    case False
    then show ?thesis by (subst ensureSize.simps) simp
  qed
qed

lemma length_ensureSize: "length (ensureSize lst sz) = max (length lst) (nat sz)"
  by (simp add: ensureSize_eq)

lemma ensureSize_index: "0 \<le> i \<Longrightarrow> nat i < length (ensureSize lst (i + 1))"
  by (simp add: length_ensureSize nat_add_distrib max_def)

lemma indexOf_ge: "- 1 \<le> indexOf xs x"
  by (induction xs) (auto simp: Let_def)

lemma indexOf_member: "0 \<le> indexOf xs x \<longleftrightarrow> x \<in> set xs"
  using indexOf_ge [of _ x] by (induction xs) (auto simp: Let_def)

lemma indexOf_nth:
  "x \<in> set xs \<Longrightarrow> nat (indexOf xs x) < length xs \<and> xs ! nat (indexOf xs x) = x"
proof (induction xs)
  case Nil
  then show ?case by simp
next
  case (Cons y ys)
  show ?case
  proof (cases "y = x")
    case True
    then show ?thesis by simp
  next
    case False
    then have m: "x \<in> set ys" using Cons.prems by simp
    then have "0 \<le> indexOf ys x" by (simp add: indexOf_member)
    then show ?thesis
      using False Cons.IH [OF m] by (simp add: Let_def nat_add_distrib)
  qed
qed

lemma indexOf_distinct: "distinct xs \<Longrightarrow> i < length xs \<Longrightarrow> indexOf xs (xs ! i) = int i"
proof (induction xs arbitrary: i)
  case Nil
  then show ?case by simp
next
  case (Cons y ys)
  show ?case
  proof (cases i)
    case 0
    then show ?thesis by simp
  next
    case (Suc j)
    then have "ys ! j \<in> set ys" and "indexOf ys (ys ! j) = int j"
      using Cons by auto
    then show ?thesis
      using Suc Cons.prems by (auto simp: Let_def)
  qed
qed

subsection \<open>Notifications travel upwards\<close>

lemma wf_tree_emit: "wf_tree depth B w \<Longrightarrow> wf_tree depth B (emit e w)"
  by (rule same_shape_wf_tree [OF same_shape_emit])

lemma wf_tree_set_value: "wf_tree depth B w \<Longrightarrow> wf_tree depth B (set_value a v w)"
  by (rule same_shape_wf_tree [OF same_shape_set_value])

lemma ancestor_emit [simp]: "ancestor (emit e w) a c = ancestor w a c"
  by (rule same_shape_ancestor [OF same_shape_emit])

lemma ancestor_set_value [simp]: "ancestor (set_value b v w) a c = ancestor w a c"
  by (rule same_shape_ancestor [OF same_shape_set_value])

lemma heap_set_value [simp]:
  "heap (set_value a v w) = (heap w)(a := (heap w a)\<lparr>m_value := v\<rparr>)"
  by (simp add: set_value_def)

lemma conns_set_value [simp]: "conns (set_value a v w) = conns w"
  by (simp add: set_value_def)

lemma events_set_value [simp]: "events (set_value a v w) = events w"
  by (simp add: set_value_def)

lemma receivers_emit [simp]: "receivers (emit e w) s = receivers w s"
  by (simp add: receivers_def)

lemma receivers_set_value [simp]: "receivers (set_value a v w) s = receivers w s"
  by (simp add: receivers_def)

lemma wf_tree_parent:
  assumes "wf_tree depth B w" and "m_parent (heap w c) = Some p"
  shows "c \<in> set (m_children (heap w p))" and "depth p < depth c" and "depth c \<le> B"
    and "ancestor w p c" and "p \<noteq> c"
    and "receivers w c = (if cls (heap w p) = QtProperty then [] else [p])"
proof -
  show c: "c \<in> set (m_children (heap w p))"
    using assms by (simp add: wf_tree_def tree_inv_def linked_def)
  then show d: "depth p < depth c" and "depth c \<le> B"
    using assms(1) by (simp_all add: wf_tree_def layered_def)
  show "ancestor w p c" using assms(2) by (rule ancestor.parent)
  show "p \<noteq> c" using d by auto
  show "receivers w c = (if cls (heap w p) = QtProperty then [] else [p])"
    using assms by (simp add: wf_tree_def wired_def)
qed

lemma wf_tree_orphan:
  assumes "wf_tree depth B w" and "m_parent (heap w c) = None"
  shows "receivers w c = []"
  using assms by (simp add: wf_tree_def wired_def)

text \<open>
  The slot of a node does what the signal of that node does, after at most one update of
  the node itself.
\<close>

lemma slot_from_signal:
  assumes sig: "\<And>w1 arg1. same_shape w w1 \<Longrightarrow>
      \<exists>k w' evs. signalValueChange eq k w1 p arg1 = Inr w' \<and> same_shape w1 w' \<and>
        events w' = events w1 @ ValueChange p arg1 # evs \<and>
        (\<forall>e \<in> set evs. ancestor w (sender e) p) \<and>
        (\<forall>a. \<not> ancestor w a p \<longrightarrow> heap w' a = heap w1 a)"
  shows "\<exists>k w' evs. slotChildValueChange eq k w p arg = Inr w' \<and> same_shape w w' \<and>
        events w' = events w @ evs \<and>
        (\<forall>e \<in> set evs. sender e = p \<or> ancestor w (sender e) p) \<and>
        (\<forall>a. a \<noteq> p \<and> \<not> ancestor w a p \<longrightarrow> heap w' a = heap w a)"
proof -
  have stay: ?thesis if "slotChildValueChange eq (Suc 0) w p arg = Inr w"
    using that by (intro exI [of _ "Suc 0"] exI [of _ w] exI [of _ "[]"]) simp
  have move: ?thesis
    if "\<And>k. slotChildValueChange eq (Suc k) w p arg = signalValueChange eq k (set_value p x w) p arg1"
    for x arg1
  proof -
    obtain k w' evs where s: "signalValueChange eq k (set_value p x w) p arg1 = Inr w'"
      and sh: "same_shape (set_value p x w) w'"
      and ev: "events w' = events (set_value p x w) @ ValueChange p arg1 # evs"
      and se: "\<forall>e \<in> set evs. ancestor w (sender e) p"
      and fr: "\<forall>a. \<not> ancestor w a p \<longrightarrow> heap w' a = heap (set_value p x w) a"
      using sig [of "set_value p x w" arg1] by auto
    have "slotChildValueChange eq (Suc k) w p arg = Inr w'" using that s by simp
    moreover have "same_shape w w'"
      using same_shape_trans [OF same_shape_set_value sh] .
    moreover have "events w' = events w @ (ValueChange p arg1 # evs)" using ev by simp
    moreover have "\<forall>e \<in> set (ValueChange p arg1 # evs). sender e = p \<or> ancestor w (sender e) p"
      using se by simp
    moreover have "\<forall>a. a \<noteq> p \<and> \<not> ancestor w a p \<longrightarrow> heap w' a = heap w a"
      using fr by simp
    ultimately show ?thesis by blast
  qed
  have pass: ?thesis
    if "\<And>k. slotChildValueChange eq (Suc k) w p arg = signalValueChange eq k w p arg1" for arg1
  proof -
    obtain k w' evs where s: "signalValueChange eq k w p arg1 = Inr w'"
      and sh: "same_shape w w'"
      and ev: "events w' = events w @ ValueChange p arg1 # evs"
      and se: "\<forall>e \<in> set evs. ancestor w (sender e) p"
      and fr: "\<forall>a. \<not> ancestor w a p \<longrightarrow> heap w' a = heap w a"
      using sig [of w arg1] by auto
    have "slotChildValueChange eq (Suc k) w p arg = Inr w'" using that s by simp
    moreover have "\<forall>e \<in> set (ValueChange p arg1 # evs). sender e = p \<or> ancestor w (sender e) p"
      using se by simp
    moreover have "\<forall>a. a \<noteq> p \<and> \<not> ancestor w a p \<longrightarrow> heap w' a = heap w a"
      using fr by simp
    ultimately show ?thesis using sh ev by blast
  qed
  show ?thesis
  proof (cases "cls (heap w p)")
    case QtProperty
    then show ?thesis by (intro stay) (simp add: slotChildValueChange.simps)
  next
    case QtGroupProperty
    then show ?thesis by (intro pass [of arg]) (simp add: slotChildValueChange.simps)
  next
    case QtListProperty
    let ?i = "indexChild w p arg"
    let ?vl = "ensureSize (toList (m_value (heap w p))) (?i + 1)"
    show ?thesis
    proof (cases "0 \<le> ?i \<and> \<not> eq (?vl ! nat ?i) (m_value (heap w arg))")
      case True
      then have "nat ?i < length ?vl" by (simp add: ensureSize_index)
      then show ?thesis
        using True QtListProperty
        by (intro move [of "VList (?vl[nat ?i := m_value (heap w arg)])" p])
           (simp add: slotChildValueChange.simps Let_def)
    next
      case False
      have "0 \<le> ?i \<Longrightarrow> nat ?i < length ?vl" by (simp add: ensureSize_index)
      then show ?thesis
        using False QtListProperty
        by (intro stay) (auto simp: slotChildValueChange.simps Let_def)
    qed
  next
    case QtDictProperty
    let ?vm = "toMap (m_value (heap w p))"
    show ?thesis
    proof (cases "\<not> eq (m_value (heap w arg)) (map_value ?vm (m_name (heap w arg)))")
      case True
      then show ?thesis
        using QtDictProperty
        by (intro move [of "VMap (map_assign (m_name (heap w arg)) (m_value (heap w arg)) ?vm)" p])
           (simp add: slotChildValueChange.simps Let_def)
    next
      case False
      then show ?thesis
        using QtDictProperty
        by (intro stay) (simp add: slotChildValueChange.simps Let_def)
    qed
  qed
qed

text \<open>
  In a forest, emitting a value change returns. It changes no node but proper ancestors
  of the sender, and after the sender's own notification only proper ancestors send.
\<close>

lemma signalValueChange_rises:
  assumes "wf_tree depth B w"
  shows "\<exists>k w' evs. signalValueChange eq k w s arg = Inr w' \<and> same_shape w w' \<and>
        events w' = events w @ ValueChange s arg # evs \<and>
        (\<forall>e \<in> set evs. ancestor w (sender e) s) \<and>
        (\<forall>a. \<not> ancestor w a s \<longrightarrow> heap w' a = heap w a)"
  using assms
proof (induction "depth s" arbitrary: s w arg rule: less_induct)
  case less
  let ?w0 = "emit (ValueChange s arg) w"
  have none: ?case if "receivers w s = []"
  proof -
    have "signalValueChange eq (Suc (Suc 0)) w s arg = Inr ?w0"
      using that by (simp add: signalValueChange.simps activate.simps)
    then show ?thesis
      by (intro exI [of _ "Suc (Suc 0)"] exI [of _ ?w0] exI [of _ "[]"]) simp
  qed
  show ?case
  proof (cases "m_parent (heap w s)")
    case None
    then show ?thesis using none wf_tree_orphan [OF less.prems] by simp
  next
    case (Some p)
    note P = wf_tree_parent [OF less.prems Some]
    show ?thesis
    proof (cases "cls (heap w p) = QtProperty")
      case True
      then show ?thesis using none P(6) by simp
    next
      case False
      then have rc: "receivers w s = [p]" using P(6) by simp
      have "\<exists>k w' evs. slotChildValueChange eq k ?w0 p arg = Inr w' \<and> same_shape ?w0 w' \<and>
        events w' = events ?w0 @ evs \<and>
        (\<forall>e \<in> set evs. sender e = p \<or> ancestor ?w0 (sender e) p) \<and>
        (\<forall>a. a \<noteq> p \<and> \<not> ancestor ?w0 a p \<longrightarrow> heap w' a = heap ?w0 a)"
      proof (rule slot_from_signal)
        fix w1 arg1
        assume sh: "same_shape ?w0 w1"
        have wf1: "wf_tree depth B w1"
          using same_shape_wf_tree [OF sh wf_tree_emit [OF less.prems]] .
        have an: "\<And>a c. ancestor w1 a c = ancestor ?w0 a c"
          using same_shape_ancestor [OF sh] .
        show "\<exists>k w' evs. signalValueChange eq k w1 p arg1 = Inr w' \<and> same_shape w1 w' \<and>
          events w' = events w1 @ ValueChange p arg1 # evs \<and>
          (\<forall>e \<in> set evs. ancestor ?w0 (sender e) p) \<and>
          (\<forall>a. \<not> ancestor ?w0 a p \<longrightarrow> heap w' a = heap w1 a)"
          using less.hyps [OF P(2) wf1, of arg1] unfolding an .
      qed
      then obtain k w' evs where sl: "slotChildValueChange eq k ?w0 p arg = Inr w'"
        and sh: "same_shape ?w0 w'"
        and ev: "events w' = events ?w0 @ evs"
        and se: "\<forall>e \<in> set evs. sender e = p \<or> ancestor w (sender e) p"
        and fr: "\<forall>a. a \<noteq> p \<and> \<not> ancestor w a p \<longrightarrow> heap w' a = heap ?w0 a"
        by auto
      have "activate eq (Suc (Suc k)) ?w0 [p] arg = Inr w'"
        using fuel_Suc(6) [OF sl] by (simp add: activate.simps)
      then have 1: "signalValueChange eq (Suc (Suc (Suc k))) w s arg = Inr w'"
        using rc by (simp add: signalValueChange.simps)
      have 2: "same_shape w w'"
        using same_shape_trans [OF same_shape_emit sh] .
      have 3: "events w' = events w @ ValueChange s arg # evs"
        using ev by simp
      have 4: "\<forall>e \<in> set evs. ancestor w (sender e) s"
        using se P(4) Some by (auto intro: ancestor.step)
      have 5: "\<forall>a. \<not> ancestor w a s \<longrightarrow> heap w' a = heap w a"
        using fr P(4) Some by (auto intro: ancestor.step)
      from 1 2 3 4 5 show ?thesis by blast
    qed
  qed
qed

lemma not_own_ancestor: "wf_tree depth B w \<Longrightarrow> \<not> ancestor w n n"
  using ancestor_depth [of depth B w n n] by auto

lemma wf_tree_example_list: "wf_tree example_depth 1 example_list"
  by (auto simp: wf_tree_def tree_inv_def linked_def wired_def layered_def receivers_def
        example_list_def node_def example_depth_def)

subsection \<open>Setting the value of a plain property\<close>

text \<open>
  Claim C1. For a node whose class is \<open>QtProperty\<close> in a forest, and whatever the
  comparison of values is: \<open>setValue v\<close> when the value held is equal to \<open>v\<close> returns the
  store unchanged, so nothing is emitted; otherwise it returns, the node then holds \<open>v\<close>,
  and of the notifications added exactly one is sent by the node, \<open>signalValueChange\<close>
  carrying the node itself (the others are sent by its ancestors). Two successive calls
  \<open>setValue v\<close> and \<open>setValue v2\<close> with \<open>v\<close> equal to \<open>v2\<close> make the node send at most one
  notification, and when the first call stored \<open>v\<close> the second changes nothing.
\<close>

theorem setValue_plain_property:
  assumes "wf_tree depth B w" and "cls (heap w n) = QtProperty"
  shows "(eq (m_value (heap w n)) v \<longrightarrow> (\<forall>k. setValue eq (Suc k) w n v = Inr w)) \<and>
         (\<not> eq (m_value (heap w n)) v \<longrightarrow>
            (\<exists>k w' evs. setValue eq k w n v = Inr w' \<and> same_shape w w' \<and>
               m_value (heap w' n) = v \<and>
               events w' = events w @ evs \<and>
               filter (\<lambda>e. sender e = n) evs = [ValueChange n n])) \<and>
         (\<forall>v2. eq v v2 \<longrightarrow>
            (\<exists>k w1 w2 evs. setValue eq k w n v = Inr w1 \<and> setValue eq k w1 n v2 = Inr w2 \<and>
               events w2 = events w @ evs \<and>
               length (filter (\<lambda>e. sender e = n) evs) \<le> 1 \<and>
               (\<not> eq (m_value (heap w n)) v \<longrightarrow> w2 = w1)))"
proof -
  have same: "setValue eq (Suc k) w n x = Inr w" if "eq (m_value (heap w n)) x" for k x
    using that assms(2) by (simp add: setValue.simps)
  have change: "\<exists>k w' evs. setValue eq k w n x = Inr w' \<and> same_shape w w' \<and>
               heap w' n = heap (set_value n x w) n \<and>
               events w' = events w @ evs \<and>
               filter (\<lambda>e. sender e = n) evs = [ValueChange n n]"
    if ne: "\<not> eq (m_value (heap w n)) x" for x
  proof -
    let ?w1 = "set_value n x w"
    obtain k w' evs where s: "signalValueChange eq k ?w1 n n = Inr w'"
      and sh: "same_shape ?w1 w'"
      and ev: "events w' = events ?w1 @ ValueChange n n # evs"
      and se: "\<forall>e \<in> set evs. ancestor ?w1 (sender e) n"
      and fr: "\<forall>a. \<not> ancestor ?w1 a n \<longrightarrow> heap w' a = heap ?w1 a"
      using signalValueChange_rises [OF wf_tree_set_value [OF assms(1)], of eq n x n n] by blast
    have na: "\<not> ancestor w n n" using not_own_ancestor [OF assms(1)] .
    have 1: "setValue eq (Suc k) w n x = Inr w'"
      using s ne assms(2) by (simp add: setValue.simps)
    have 2: "same_shape w w'" using same_shape_trans [OF same_shape_set_value sh] .
    have 3: "heap w' n = heap ?w1 n" using fr na by simp
    have 4: "events w' = events w @ (ValueChange n n # evs)" using ev by simp
    have "\<forall>e \<in> set evs. sender e \<noteq> n" using se na by auto
    then have 5: "filter (\<lambda>e. sender e = n) (ValueChange n n # evs) = [ValueChange n n]"
      by (simp add: filter_empty_conv)
    from 1 2 3 4 5 show ?thesis by blast
  qed
  have twice: "\<exists>k w1 w2 evs. setValue eq k w n v = Inr w1 \<and> setValue eq k w1 n v2 = Inr w2 \<and>
               events w2 = events w @ evs \<and>
               length (filter (\<lambda>e. sender e = n) evs) \<le> 1 \<and>
               (\<not> eq (m_value (heap w n)) v \<longrightarrow> w2 = w1)"
    if e: "eq v v2" for v2
  proof (cases "eq (m_value (heap w n)) v")
    case True
    show ?thesis
    proof (cases "eq (m_value (heap w n)) v2")
      case t2: True
      have "setValue eq (Suc 0) w n v = Inr w" and "setValue eq (Suc 0) w n v2 = Inr w"
        using same True t2 by simp_all
      then show ?thesis using True
        by (intro exI [of _ "Suc 0"] exI [of _ w] exI [of _ "[]"]) simp
    next
      case False
      obtain k w' evs where s: "setValue eq k w n v2 = Inr w'"
        and ev: "events w' = events w @ evs"
        and f: "filter (\<lambda>e. sender e = n) evs = [ValueChange n n]"
        using change [OF False] by blast
      have "setValue eq (Suc k) w n v = Inr w" using same True by simp
      moreover have "setValue eq (Suc k) w n v2 = Inr w'" using fuel_Suc(1) [OF s] .
      ultimately show ?thesis using ev f True
        by (intro exI [of _ "Suc k"] exI [of _ w] exI [of _ w'] exI [of _ evs]) simp
    qed
  next
    case False
    obtain k w' evs where s: "setValue eq k w n v = Inr w'"
      and sh: "same_shape w w'"
      and h: "heap w' n = heap (set_value n v w) n"
      and ev: "events w' = events w @ evs"
      and f: "filter (\<lambda>e. sender e = n) evs = [ValueChange n n]"
      using change [OF False] by blast
    have "cls (heap w' n) = QtProperty" and "m_value (heap w' n) = v"
      using h assms(2) by simp_all
    then have "setValue eq (Suc k) w' n v2 = Inr w'"
      using e by (simp add: setValue.simps)
    moreover have "setValue eq (Suc k) w n v = Inr w'" using fuel_Suc(1) [OF s] .
    ultimately show ?thesis using ev f
      by (intro exI [of _ "Suc k"] exI [of _ w'] exI [of _ w'] exI [of _ evs]) simp
  qed
  have stored: "\<exists>k w' evs. setValue eq k w n v = Inr w' \<and> same_shape w w' \<and>
               m_value (heap w' n) = v \<and>
               events w' = events w @ evs \<and>
               filter (\<lambda>e. sender e = n) evs = [ValueChange n n]"
    if ne: "\<not> eq (m_value (heap w n)) v"
  proof -
    obtain k w' evs where "setValue eq k w n v = Inr w'" and "same_shape w w'"
      and h: "heap w' n = heap (set_value n v w) n"
      and "events w' = events w @ evs"
      and "filter (\<lambda>e. sender e = n) evs = [ValueChange n n]"
      using change [OF ne] by blast
    moreover have "m_value (heap w' n) = v" using h by simp
    ultimately show ?thesis by blast
  qed
  show ?thesis using same stored twice by blast
qed

theorem setValue_plain_property_witness:
  "wf_tree example_depth 1 example_list \<and> cls (heap example_list 1) = QtProperty \<and>
   example_equals (m_value (heap example_list 1)) (VInt 1) \<and>
   setValue example_equals (Suc 0) example_list 1 (VInt 1) = Inr example_list \<and>
   \<not> example_equals (m_value (heap example_list 1)) (VInt 5) \<and>
   (\<exists>k w' evs. setValue example_equals k example_list 1 (VInt 5) = Inr w' \<and>
      m_value (heap w' 1) = VInt 5 \<and> events w' = events example_list @ evs \<and>
      filter (\<lambda>e. sender e = 1) evs = [ValueChange 1 1]) \<and>
   example_equals (VInt 5) (VInt 5) \<and>
   (\<exists>k w1 w2 evs. setValue example_equals k example_list 1 (VInt 5) = Inr w1 \<and>
      setValue example_equals k w1 1 (VInt 5) = Inr w2 \<and> w2 = w1 \<and>
      events w2 = events example_list @ evs \<and>
      length (filter (\<lambda>e. sender e = 1) evs) \<le> 1)"
proof -
  have c: "cls (heap example_list 1) = QtProperty"
    and e: "example_equals (m_value (heap example_list 1)) (VInt 1)"
    and v: "\<not> example_equals (m_value (heap example_list 1)) (VInt 5)"
    and r: "example_equals (VInt 5) (VInt 5)"
    by (simp_all add: example_list_def node_def)
  note t = setValue_plain_property [OF wf_tree_example_list c, of example_equals]
  have 1: "setValue example_equals (Suc 0) example_list 1 (VInt 1) = Inr example_list"
    using t [of "VInt 1"] e by blast
  have 2: "\<exists>k w' evs. setValue example_equals k example_list 1 (VInt 5) = Inr w' \<and>
      m_value (heap w' 1) = VInt 5 \<and> events w' = events example_list @ evs \<and>
      filter (\<lambda>e. sender e = 1) evs = [ValueChange 1 1]"
    using t [of "VInt 5"] v by blast
  have 3: "\<exists>k w1 w2 evs. setValue example_equals k example_list 1 (VInt 5) = Inr w1 \<and>
      setValue example_equals k w1 1 (VInt 5) = Inr w2 \<and> w2 = w1 \<and>
      events w2 = events example_list @ evs \<and>
      length (filter (\<lambda>e. sender e = 1) evs) \<le> 1"
    using t [of "VInt 5"] v r by blast
  show ?thesis
    using wf_tree_example_list c e v r 1 2 3 by blast
qed

subsection \<open>The slot of a list\<close>

lemma ensureSize_pad_to: "ensureSize xs (int n) = pad_to n xs"
  by (simp add: ensureSize_eq pad_to_def nat_diff_distrib' flip: of_nat_diff)

lemma ensureSize_pad_to_Suc: "ensureSize xs (int i + 1) = pad_to (Suc i) xs"
  using ensureSize_pad_to [of xs "Suc i"] by (simp add: add.commute)

lemma length_pad_to: "length (pad_to n xs) = max (length xs) n"
  by (simp add: pad_to_def)

lemma pad_to_nth: "i < n \<Longrightarrow> i < m \<Longrightarrow> pad_to n xs ! i = pad_to m xs ! i"
  by (simp add: pad_to_def nth_append)

lemma indexChild_nth:
  assumes "wf_tree depth B w" and "i < length (m_children (heap w p))"
  shows "indexChild w p (m_children (heap w p) ! i) = int i"
  using assms by (simp add: indexChild_def wf_tree_def tree_inv_def indexOf_distinct)

text \<open>
  Claim C4. Let \<open>child\<close> be the child at index \<open>i\<close> of a list \<open>l\<close> in a forest.
  \<open>slotChildValueChange\<close> pads the stored sequence to at least \<open>i + 1\<close> elements and
  compares the element at \<open>i\<close> with the value of the child. When the comparison finds them
  equal, the store is returned unchanged (no notification). Otherwise the call returns, the
  list then holds a sequence of the padded length with the child's value at \<open>i\<close> and every
  other position as before, and of the notifications added exactly one is sent by the list.
  This holds whatever the comparison is.
\<close>

theorem slotChildValueChange_list:
  assumes "wf_tree depth B w" and "cls (heap w l) = QtListProperty"
    and "i < length (m_children (heap w l))" and "child = m_children (heap w l) ! i"
  shows "(eq (pad_to (Suc i) (toList (m_value (heap w l))) ! i) (m_value (heap w child)) \<longrightarrow>
            (\<forall>k. slotChildValueChange eq (Suc k) w l child = Inr w)) \<and>
         (\<not> eq (pad_to (Suc i) (toList (m_value (heap w l))) ! i) (m_value (heap w child)) \<longrightarrow>
            (\<exists>k w' evs vl. slotChildValueChange eq k w l child = Inr w' \<and> same_shape w w' \<and>
               m_value (heap w' l) = VList vl \<and>
               length vl = length (pad_to (Suc i) (toList (m_value (heap w l)))) \<and>
               vl ! i = m_value (heap w child) \<and>
               (\<forall>j < length vl. j \<noteq> i \<longrightarrow>
                  vl ! j = pad_to (Suc i) (toList (m_value (heap w l))) ! j) \<and>
               events w' = events w @ evs \<and>
               filter (\<lambda>e. sender e = l) evs = [ValueChange l l]))"
proof -
  let ?vl = "pad_to (Suc i) (toList (m_value (heap w l)))"
  have ix: "indexChild w l child = int i"
    using indexChild_nth [OF assms(1,3)] assms(4) by simp
  have len: "i < length ?vl" by (simp add: length_pad_to)
  have unfold: "slotChildValueChange eq (Suc k) w l child =
      (if \<not> eq (?vl ! i) (m_value (heap w child))
       then signalValueChange eq k (set_value l (VList (?vl[i := m_value (heap w child)])) w) l l
       else Inr w)" for k
    using assms(2) ix len
    by (simp add: slotChildValueChange.simps Let_def ensureSize_pad_to_Suc)
  show ?thesis
  proof (intro conjI impI)
    assume "eq (?vl ! i) (m_value (heap w child))"
    then show "\<forall>k. slotChildValueChange eq (Suc k) w l child = Inr w"
      using unfold by simp
  next
    assume ne: "\<not> eq (?vl ! i) (m_value (heap w child))"
    let ?new = "?vl[i := m_value (heap w child)]"
    let ?w1 = "set_value l (VList ?new) w"
    obtain k w' evs where s: "signalValueChange eq k ?w1 l l = Inr w'"
      and sh: "same_shape ?w1 w'"
      and ev: "events w' = events ?w1 @ ValueChange l l # evs"
      and se: "\<forall>e \<in> set evs. ancestor ?w1 (sender e) l"
      and fr: "\<forall>a. \<not> ancestor ?w1 a l \<longrightarrow> heap w' a = heap ?w1 a"
      using signalValueChange_rises [OF wf_tree_set_value [OF assms(1)],
          of eq l "VList ?new" l l]
      by blast
    have na: "\<not> ancestor w l l" using not_own_ancestor [OF assms(1)] .
    have 1: "slotChildValueChange eq (Suc k) w l child = Inr w'" using unfold ne s by simp
    have 2: "same_shape w w'" using same_shape_trans [OF same_shape_set_value sh] .
    have "heap w' l = heap ?w1 l" using fr na by simp
    then have 3: "m_value (heap w' l) = VList ?new" by simp
    have 4: "length ?new = length ?vl" by simp
    have 5: "?new ! i = m_value (heap w child)" using len by simp
    have 6: "\<forall>j < length ?new. j \<noteq> i \<longrightarrow> ?new ! j = ?vl ! j" by simp
    have 7: "events w' = events w @ (ValueChange l l # evs)" using ev by simp
    have "\<forall>e \<in> set evs. sender e \<noteq> l" using se na by auto
    then have 8: "filter (\<lambda>e. sender e = l) (ValueChange l l # evs) = [ValueChange l l]"
      by (simp add: filter_empty_conv)
    from 1 2 3 4 5 6 7 8
    show "\<exists>k w' evs vl. slotChildValueChange eq k w l child = Inr w' \<and> same_shape w w' \<and>
               m_value (heap w' l) = VList vl \<and>
               length vl = length ?vl \<and>
               vl ! i = m_value (heap w child) \<and>
               (\<forall>j < length vl. j \<noteq> i \<longrightarrow> vl ! j = ?vl ! j) \<and>
               events w' = events w @ evs \<and>
               filter (\<lambda>e. sender e = l) evs = [ValueChange l l]"
      by blast
  qed
qed

theorem slotChildValueChange_list_witness:
  "wf_tree example_depth 1 (set_value 2 (VInt 7) example_list) \<and>
   cls (heap (set_value 2 (VInt 7) example_list) 0) = QtListProperty \<and>
   1 < length (m_children (heap (set_value 2 (VInt 7) example_list) 0)) \<and>
   2 = m_children (heap (set_value 2 (VInt 7) example_list) 0) ! 1 \<and>
   \<not> example_equals
       (pad_to (Suc 1) (toList (m_value (heap (set_value 2 (VInt 7) example_list) 0))) ! 1)
       (m_value (heap (set_value 2 (VInt 7) example_list) 2)) \<and>
   (\<exists>k w' evs. slotChildValueChange example_equals k (set_value 2 (VInt 7) example_list) 0 2 =
        Inr w' \<and>
      m_value (heap w' 0) = VList [VInt 1, VInt 7] \<and>
      events w' = events (set_value 2 (VInt 7) example_list) @ evs \<and>
      filter (\<lambda>e. sender e = 0) evs = [ValueChange 0 0])"
proof -
  let ?w = "set_value 2 (VInt 7) example_list"
  have wf: "wf_tree example_depth 1 ?w"
    using wf_tree_set_value [OF wf_tree_example_list] .
  have c: "cls (heap ?w 0) = QtListProperty" and i: "1 < length (m_children (heap ?w 0))"
    and ch: "2 = m_children (heap ?w 0) ! 1"
    and v: "m_value (heap ?w 0) = VList [VInt 1, VInt 2]" and v2: "m_value (heap ?w 2) = VInt 7"
    by (simp_all add: example_list_def node_def)
  have ne: "\<not> example_equals (pad_to (Suc 1) (toList (m_value (heap ?w 0))) ! 1)
      (m_value (heap ?w 2))"
    by (simp add: example_list_def node_def pad_to_def)
  from slotChildValueChange_list [OF wf c i ch, of example_equals] ne
  obtain k w' evs vl where s: "slotChildValueChange example_equals k ?w 0 2 = Inr w'"
    and vl: "m_value (heap w' 0) = VList vl"
    and l: "length vl = length (pad_to (Suc 1) (toList (m_value (heap ?w 0))))"
    and n1: "vl ! 1 = m_value (heap ?w 2)"
    and n0: "\<forall>j < length vl. j \<noteq> 1 \<longrightarrow> vl ! j = pad_to (Suc 1) (toList (m_value (heap ?w 0))) ! j"
    and e: "events w' = events ?w @ evs"
    and f: "filter (\<lambda>e. sender e = 0) evs = [ValueChange 0 0]"
    by blast
  have l2: "length vl = 2" using l by (simp add: example_list_def node_def pad_to_def)
  have "vl ! 0 = VInt 1" using n0 l2 by (simp add: example_list_def node_def pad_to_def)
  moreover have "vl ! 1 = VInt 7" using n1 by (simp add: example_list_def node_def)
  ultimately have "vl = [VInt 1, VInt 7]"
    using l2 by (auto simp: list_eq_iff_nth_eq less_Suc_eq numeral_2_eq_2)
  then show ?thesis using wf c i ch ne s vl e f by blast
qed

subsection \<open>Values travel downwards\<close>

lemma fuel_mono:
  assumes "k \<le> k'"
  shows "setValue eq k w this v = Inr w' \<Longrightarrow> setValue eq k' w this v = Inr w'"
    and "QtListProperty_setValue_loop eq k w this vl i = Inr w' \<Longrightarrow>
        QtListProperty_setValue_loop eq k' w this vl i = Inr w'"
    and "QtDictProperty_setValue_loop eq k w vm cs = Inr w' \<Longrightarrow>
        QtDictProperty_setValue_loop eq k' w vm cs = Inr w'"
    and "signalValueChange eq k w s p = Inr w' \<Longrightarrow> signalValueChange eq k' w s p = Inr w'"
    and "activate eq k w rs p = Inr w' \<Longrightarrow> activate eq k' w rs p = Inr w'"
    and "slotChildValueChange eq k w this c = Inr w' \<Longrightarrow>
        slotChildValueChange eq k' w this c = Inr w'"
  using assms by (induction rule: dec_induct) (auto intro: fuel_Suc)

lemma ancestor_cases:
  "ancestor w a c \<Longrightarrow> \<exists>p. m_parent (heap w c) = Some p \<and> (a = p \<or> ancestor w a p)"
  by (erule ancestor.cases) auto

lemma below_refl [simp]: "below w n n"
  by (simp add: below_def)

lemma below_child: "m_parent (heap w c) = Some n \<Longrightarrow> below w c a \<Longrightarrow> ancestor w n a"
  unfolding below_def by (auto intro: ancestor.parent ancestor_trans)

lemma same_shape_below: "same_shape w w' \<Longrightarrow> below w' n a = below w n a"
  by (simp add: below_def same_shape_ancestor)

lemma below_depth: "wf_tree depth B w \<Longrightarrow> below w n a \<Longrightarrow> depth n \<le> depth a"
  unfolding below_def using ancestor_depth [of depth B w n a] by auto

lemma siblings_apart:
  assumes "wf_tree depth B w" and "m_parent (heap w c) = Some n"
    and "m_parent (heap w c') = Some n" and "below w c c'"
  shows "c' = c"
proof (rule ccontr)
  assume "c' \<noteq> c"
  then have "ancestor w c c'" using assms(4) by (simp add: below_def)
  then have "c = n \<or> ancestor w c n" using ancestor_cases assms(3) by fastforce
  then have "depth c \<le> depth n" using ancestor_depth [OF assms(1), of c n] by auto
  then show False using wf_tree_parent(2) [OF assms(1,2)] by simp
qed

lemma parent_not_below:
  assumes "wf_tree depth B w" and "m_parent (heap w c) = Some n"
  shows "\<not> below w c n"
  using below_depth [OF assms(1), of c n] wf_tree_parent(2) [OF assms] by auto

lemma wf_tree_child:
  assumes "wf_tree depth B w" and "c \<in> set (m_children (heap w n))"
  shows "m_parent (heap w c) = Some n"
  using assms by (simp add: wf_tree_def tree_inv_def linked_def)

lemma indexChild_emit [simp]: "indexChild (emit e w) p n = indexChild w p n"
  by (simp add: indexChild_def)

lemma indexChild_set_value [simp]: "indexChild (set_value a v w) p n = indexChild w p n"
  by (simp add: indexChild_def)

text \<open>When the container above expects the value a node holds, its notification stops there.\<close>

lemma signal_absorbed:
  assumes "wf_tree depth B w" and "expects w n (m_value (heap w n))"
    and "eq (m_value (heap w n)) (m_value (heap w n))"
  shows "\<exists>k. signalValueChange eq k w n n = Inr (emit (ValueChange n n) w)"
proof -
  let ?w0 = "emit (ValueChange n n) w"
  have none: ?thesis if "receivers w n = []"
  proof -
    have "signalValueChange eq (Suc (Suc 0)) w n n = Inr ?w0"
      using that by (simp add: signalValueChange.simps activate.simps)
    then show ?thesis ..
  qed
  have one: ?thesis if "receivers w n = [p]" and "slotChildValueChange eq (Suc 0) ?w0 p n = Inr ?w0"
    for p
  proof -
    have "signalValueChange eq (Suc (Suc (Suc 0))) w n n = Inr ?w0"
      using that by (simp add: signalValueChange.simps activate.simps)
    then show ?thesis ..
  qed
  show ?thesis
  proof (cases "m_parent (heap w n)")
    case None
    then show ?thesis using none wf_tree_orphan [OF assms(1)] by simp
  next
    case (Some p)
    note P = wf_tree_parent [OF assms(1) Some]
    show ?thesis
    proof (cases "cls (heap w p)")
      case QtProperty
      then show ?thesis using none P(6) by simp
    next
      case QtGroupProperty
      then show ?thesis using assms(2) Some by (simp add: expects_def)
    next
      case QtListProperty
      have ge: "0 \<le> indexChild w p n"
        using P(1) by (simp add: indexChild_def indexOf_member)
      then have "int (nat (indexChild w p n)) + 1 = indexChild w p n + 1" by simp
      then have pad: "ensureSize (toList (m_value (heap w p))) (indexChild w p n + 1) =
          pad_to (Suc (nat (indexChild w p n))) (toList (m_value (heap w p)))"
        using ensureSize_pad_to_Suc [of "toList (m_value (heap w p))" "nat (indexChild w p n)"]
        by simp
      have "slotChildValueChange eq (Suc 0) ?w0 p n = Inr ?w0"
        using QtListProperty assms(2,3) Some ge
        by (simp add: slotChildValueChange.simps expects_def Let_def pad length_pad_to)
      then show ?thesis using one [of p] P(6) QtListProperty by simp
    next
      case QtDictProperty
      have "slotChildValueChange eq (Suc 0) ?w0 p n = Inr ?w0"
        using QtDictProperty assms(2,3) Some
        by (simp add: slotChildValueChange.simps expects_def Let_def)
      then show ?thesis using one [of p] P(6) QtDictProperty by simp
    qed
  qed
qed

lemma same_shape_via_set_value:
  "same_shape (set_value a v w) w' \<Longrightarrow> same_shape w w'"
  by (rule same_shape_trans [OF same_shape_set_value])

lemma same_shape_via_emit:
  "same_shape (emit e w) w' \<Longrightarrow> same_shape w w'"
  by (rule same_shape_trans [OF same_shape_emit])

text \<open>Setting values and notifying never relinks a node and never touches a connection.\<close>

lemma keeps_shape:
  "setValue eq k w this v = Inr w' \<Longrightarrow> same_shape w w'"
  "QtListProperty_setValue_loop eq k w this vl i = Inr w' \<Longrightarrow> same_shape w w'"
  "QtDictProperty_setValue_loop eq k w vm cs = Inr w' \<Longrightarrow> same_shape w w'"
  "signalValueChange eq k w s p = Inr w' \<Longrightarrow> same_shape w w'"
  "activate eq k w rs p = Inr w' \<Longrightarrow> same_shape w w'"
  "slotChildValueChange eq k w this c = Inr w' \<Longrightarrow> same_shape w w'"
proof (induction k arbitrary: w this v w' vl i vm cs s p rs c)
  case 0
  {
    case 1 then show ?case by (simp add: setValue.simps)
  next
    case 2 then show ?case by (simp add: QtListProperty_setValue_loop.simps)
  next
    case 3 then show ?case by (simp add: QtDictProperty_setValue_loop.simps)
  next
    case 4 then show ?case by (simp add: signalValueChange.simps)
  next
    case 5 then show ?case by (simp add: activate.simps)
  next
    case 6 then show ?case by (simp add: slotChildValueChange.simps)
  }
next
  case (Suc k)
  {
    case 1
    then show ?case
      apply (subst (asm) setValue.simps(2))
      apply (auto split: prop_class.splits sum.splits if_splits simp: Let_def
          dest!: Suc.IH same_shape_via_set_value intro: same_shape_trans)
      done
  next
    case 2
    then show ?case
      apply (subst (asm) QtListProperty_setValue_loop.simps(2))
      apply (auto split: sum.splits if_splits dest!: Suc.IH intro: same_shape_trans)
      done
  next
    case 3
    then show ?case
      by (cases cs)
        (auto split: sum.splits simp: QtDictProperty_setValue_loop.simps
          dest!: Suc.IH intro: same_shape_trans)
  next
    case 4
    then show ?case
      by (auto simp: signalValueChange.simps dest!: Suc.IH same_shape_via_emit)
  next
    case 5
    then show ?case
      by (cases rs)
        (auto split: sum.splits simp: activate.simps dest!: Suc.IH intro: same_shape_trans)
  next
    case 6
    then show ?case
      apply (subst (asm) slotChildValueChange.simps(2))
      apply (auto split: prop_class.splits sum.splits if_splits simp: Let_def
          dest!: Suc.IH same_shape_via_set_value)
      done
  }
qed

lemma setValue_each_mono:
  "k \<le> k' \<Longrightarrow> setValue_each eq k w ps = Inr w' \<Longrightarrow> setValue_each eq k' w ps = Inr w'"
proof (induction ps arbitrary: w)
  case Nil
  then show ?case by simp
next
  case (Cons a ps)
  obtain c x where a: "a = (c, x)" by (cases a)
  from Cons.prems(2) obtain w1 where 1: "setValue eq k w c x = Inr w1"
    and 2: "setValue_each eq k w1 ps = Inr w'"
    by (auto simp: a split: sum.splits)
  show ?case
    using fuel_mono(1) [OF Cons.prems(1) 1] Cons.IH [OF Cons.prems(1) 2] by (simp add: a)
qed

text \<open>What \<open>self_equal\<close> gives for the values a container hands down.\<close>

lemma self_equal_refl: "self_equal eq x \<Longrightarrow> eq x x"
  by (cases x) (simp_all add: self_equal_def)

lemma self_equal_Null: "self_equal eq x \<Longrightarrow> self_equal eq Null"
  by (simp add: self_equal_def)

lemma self_equal_toList: "self_equal eq x \<Longrightarrow> y \<in> set (toList x) \<Longrightarrow> self_equal eq y"
  by (cases x) (auto simp: self_equal_def list_all_iff)

lemma self_equal_pad_to:
  assumes "self_equal eq x" and "i < length (pad_to n (toList x))"
  shows "self_equal eq (pad_to n (toList x) ! i)"
proof (cases "i < length (toList x)")
  case True
  then have "pad_to n (toList x) ! i \<in> set (toList x)"
    by (simp add: pad_to_def nth_append)
  then show ?thesis using self_equal_toList [OF assms(1)] by simp
next
  case False
  then have "pad_to n (toList x) ! i = Null"
    using assms(2) by (simp add: pad_to_def nth_append)
  then show ?thesis using self_equal_Null [OF assms(1)] by simp
qed

lemma self_equal_map_value:
  assumes "self_equal eq x"
  shows "self_equal eq (map_value (toMap x) name)"
proof (cases "map_of (toMap x) name")
  case None
  then show ?thesis using self_equal_Null [OF assms] by (simp add: map_value_def)
next
  case (Some y)
  then have "(name, y) \<in> set (toMap x)" by (rule map_of_SomeD)
  then have "y \<in> snd ` set (toMap x)" by force
  then have "self_equal eq y"
    using assms by (cases x) (auto simp: self_equal_def list_all_iff)
  then show ?thesis using Some by (simp add: map_value_def)
qed

lemma setValue_each_sinks:
  assumes wf0: "wf_tree depth B w0"
  shows "(\<And>c x. (c, x) \<in> set ps \<Longrightarrow> m_parent (heap w0 c) = Some n) \<Longrightarrow>
    distinct (map fst ps) \<Longrightarrow>
    (\<And>c x w1. (c, x) \<in> set ps \<Longrightarrow> same_shape w0 w1 \<Longrightarrow> m_value (heap w1 n) = v \<Longrightarrow>
        \<exists>k w' evs. setValue eq k w1 c x = Inr w' \<and> sinks eq w1 c x w' evs) \<Longrightarrow>
    same_shape w0 w \<Longrightarrow> m_value (heap w n) = v \<Longrightarrow>
    \<exists>k w' evs. setValue_each eq k w ps = Inr w' \<and> same_shape w w' \<and>
      events w' = events w @ evs \<and>
      (\<forall>e \<in> set evs. \<exists>c \<in> fst ` set ps. below w0 c (sender e)) \<and>
      (\<forall>a. (\<forall>c \<in> fst ` set ps. \<not> below w0 c a) \<longrightarrow> heap w' a = heap w a) \<and>
      (\<forall>(c, x) \<in> set ps.
         (cls (heap w0 c) \<noteq> QtGroupProperty \<and> \<not> eq (m_value (heap w c)) x \<longrightarrow>
            m_value (heap w' c) = x) \<and>
         (eq (m_value (heap w c)) x \<or> cls (heap w0 c) = QtGroupProperty \<longrightarrow>
            heap w' c = heap w c \<and> (\<forall>e \<in> set evs. sender e \<noteq> c)))"
proof (induction ps arbitrary: w)
  case Nil
  show ?case
    by (intro exI [of _ 0] exI [of _ w] exI [of _ "[]"]) simp
next
  case (Cons a rest)
  obtain c x where a: "a = (c, x)" by (cases a)
  have par: "\<And>c' x'. (c', x') \<in> set (a # rest) \<Longrightarrow> m_parent (heap w0 c') = Some n"
    using Cons.prems(1) by blast
  have pc: "m_parent (heap w0 c) = Some n" using par [of c x] by (simp add: a)
  have bw: "\<And>m b. below w m b = below w0 m b"
    using same_shape_below [OF Cons.prems(4)] by simp
  have cw: "\<And>b. cls (heap w b) = cls (heap w0 b)"
    using same_shape_fields(3) [OF Cons.prems(4)] by simp
  have apart: "\<not> below w0 c c'" "\<not> below w0 c' c" "c' \<noteq> c" if "(c', x') \<in> set rest" for c' x'
  proof -
    have ne: "c' \<noteq> c" using that Cons.prems(2) by (force simp: a)
    have pc': "m_parent (heap w0 c') = Some n" using par [of c' x'] that by simp
    show "c' \<noteq> c" by (rule ne)
    show "\<not> below w0 c c'" using siblings_apart [OF wf0 pc pc'] ne by auto
    show "\<not> below w0 c' c" using siblings_apart [OF wf0 pc' pc] ne by auto
  qed
  obtain k1 w1 evs1 where s1: "setValue eq k1 w c x = Inr w1" and sk: "sinks eq w c x w1 evs1"
    using Cons.prems(3) [of c x w] Cons.prems(4,5) by (auto simp: a)
  have sh1: "same_shape w w1" and ev1: "events w1 = events w @ evs1"
    and se1: "\<forall>e \<in> set evs1. below w0 c (sender e)"
    and fr1: "\<forall>b. \<not> below w0 c b \<longrightarrow> heap w1 b = heap w b"
    and va1: "cls (heap w0 c) \<noteq> QtGroupProperty \<and> \<not> eq (m_value (heap w c)) x \<longrightarrow>
                m_value (heap w1 c) = x"
    and no1: "cls (heap w0 c) = QtGroupProperty \<or> eq (m_value (heap w c)) x \<longrightarrow>
                w1 = w \<and> evs1 = []"
    using sk by (simp_all add: sinks_def bw cw)
  have sh01: "same_shape w0 w1" using same_shape_trans [OF Cons.prems(4) sh1] .
  have "heap w1 n = heap w n" using fr1 parent_not_below [OF wf0 pc] by simp
  then have val1: "m_value (heap w1 n) = v" using Cons.prems(5) by simp
  have "\<exists>k w' evs. setValue_each eq k w1 rest = Inr w' \<and> same_shape w1 w' \<and>
      events w' = events w1 @ evs \<and>
      (\<forall>e \<in> set evs. \<exists>c \<in> fst ` set rest. below w0 c (sender e)) \<and>
      (\<forall>a. (\<forall>c \<in> fst ` set rest. \<not> below w0 c a) \<longrightarrow> heap w' a = heap w1 a) \<and>
      (\<forall>(c, x) \<in> set rest.
         (cls (heap w0 c) \<noteq> QtGroupProperty \<and> \<not> eq (m_value (heap w1 c)) x \<longrightarrow>
            m_value (heap w' c) = x) \<and>
         (eq (m_value (heap w1 c)) x \<or> cls (heap w0 c) = QtGroupProperty \<longrightarrow>
            heap w' c = heap w1 c \<and> (\<forall>e \<in> set evs. sender e \<noteq> c)))"
  proof (rule Cons.IH)
    show "\<And>c x. (c, x) \<in> set rest \<Longrightarrow> m_parent (heap w0 c) = Some n"
      using par by auto
    show "distinct (map fst rest)" using Cons.prems(2) by simp
    show "\<And>c x w1. (c, x) \<in> set rest \<Longrightarrow> same_shape w0 w1 \<Longrightarrow> m_value (heap w1 n) = v \<Longrightarrow>
        \<exists>k w' evs. setValue eq k w1 c x = Inr w' \<and> sinks eq w1 c x w' evs"
      using Cons.prems(3) by auto
    show "same_shape w0 w1" by (rule sh01)
    show "m_value (heap w1 n) = v" by (rule val1)
  qed
  then obtain k2 w' evs2 where s2: "setValue_each eq k2 w1 rest = Inr w'"
    and sh2: "same_shape w1 w'" and ev2: "events w' = events w1 @ evs2"
    and se2: "\<forall>e \<in> set evs2. \<exists>c \<in> fst ` set rest. below w0 c (sender e)"
    and fr2: "\<forall>a. (\<forall>c \<in> fst ` set rest. \<not> below w0 c a) \<longrightarrow> heap w' a = heap w1 a"
    and ch2: "\<forall>(c, x) \<in> set rest.
         (cls (heap w0 c) \<noteq> QtGroupProperty \<and> \<not> eq (m_value (heap w1 c)) x \<longrightarrow>
            m_value (heap w' c) = x) \<and>
         (eq (m_value (heap w1 c)) x \<or> cls (heap w0 c) = QtGroupProperty \<longrightarrow>
            heap w' c = heap w1 c \<and> (\<forall>e \<in> set evs2. sender e \<noteq> c))"
    by blast
  let ?k = "max k1 k2"
  have "setValue eq ?k w c x = Inr w1" using fuel_mono(1) [OF _ s1, of ?k] by simp
  moreover have "setValue_each eq ?k w1 rest = Inr w'"
    using setValue_each_mono [OF _ s2, of ?k] by simp
  ultimately have 1: "setValue_each eq ?k w (a # rest) = Inr w'" by (simp add: a)
  have 2: "same_shape w w'" using same_shape_trans [OF sh1 sh2] .
  have 3: "events w' = events w @ (evs1 @ evs2)" using ev1 ev2 by simp
  have 4: "\<forall>e \<in> set (evs1 @ evs2). \<exists>c \<in> fst ` set (a # rest). below w0 c (sender e)"
    using se1 se2 by (auto simp: a)
  have 5: "\<forall>b. (\<forall>c \<in> fst ` set (a # rest). \<not> below w0 c b) \<longrightarrow> heap w' b = heap w b"
    using fr1 fr2 by (auto simp: a)
  have keep_c: "heap w' c = heap w1 c"
    using fr2 apart(2) by fastforce
  have not_c: "\<forall>e \<in> set evs2. sender e \<noteq> c"
    using se2 apart(2) by fastforce
  have 6: "(cls (heap w0 c) \<noteq> QtGroupProperty \<and> \<not> eq (m_value (heap w c)) x \<longrightarrow>
            m_value (heap w' c) = x) \<and>
         (eq (m_value (heap w c)) x \<or> cls (heap w0 c) = QtGroupProperty \<longrightarrow>
            heap w' c = heap w c \<and> (\<forall>e \<in> set (evs1 @ evs2). sender e \<noteq> c))"
    using va1 no1 keep_c not_c by auto
  have 7: "(cls (heap w0 c') \<noteq> QtGroupProperty \<and> \<not> eq (m_value (heap w c')) x' \<longrightarrow>
            m_value (heap w' c') = x') \<and>
         (eq (m_value (heap w c')) x' \<or> cls (heap w0 c') = QtGroupProperty \<longrightarrow>
            heap w' c' = heap w c' \<and> (\<forall>e \<in> set (evs1 @ evs2). sender e \<noteq> c'))"
    if "(c', x') \<in> set rest" for c' x'
  proof -
    have k: "heap w1 c' = heap w c'" using fr1 apart(1) [OF that] by simp
    have n1: "\<forall>e \<in> set evs1. sender e \<noteq> c'" using se1 apart(1) [OF that] by auto
    show ?thesis using ch2 that k n1 by fastforce
  qed
  have 8: "\<forall>(c, x) \<in> set (a # rest).
         (cls (heap w0 c) \<noteq> QtGroupProperty \<and> \<not> eq (m_value (heap w c)) x \<longrightarrow>
            m_value (heap w' c) = x) \<and>
         (eq (m_value (heap w c)) x \<or> cls (heap w0 c) = QtGroupProperty \<longrightarrow>
            heap w' c = heap w c \<and> (\<forall>e \<in> set (evs1 @ evs2). sender e \<noteq> c))"
    using 6 7 by (auto simp: a)
  from 1 2 3 4 5 8 show ?case by blast
qed

text \<open>The two loops of the source do what \<open>setValue_each\<close> does.\<close>

lemma list_loop_each:
  "m_children (heap w n) = cs \<Longrightarrow> length cs \<le> length vl \<Longrightarrow>
   setValue_each eq k w (drop i (zip cs vl)) = Inr w' \<Longrightarrow>
   QtListProperty_setValue_loop eq (Suc (k + (length cs - i))) w n vl i = Inr w'"
proof (induction "length cs - i" arbitrary: i w)
  case 0
  then show ?case by (simp add: QtListProperty_setValue_loop.simps)
next
  case (Suc d)
  then have i: "i < length cs" and iv: "i < length vl" by simp_all
  then have "drop i (zip cs vl) = (cs ! i, vl ! i) # drop (Suc i) (zip cs vl)"
    by (simp add: Cons_nth_drop_Suc [symmetric])
  with Suc.prems(3) obtain w1 where 1: "setValue eq k w (cs ! i) (vl ! i) = Inr w1"
    and 2: "setValue_each eq k w1 (drop (Suc i) (zip cs vl)) = Inr w'"
    by (auto split: sum.splits)
  have c1: "m_children (heap w1 n) = cs"
    using same_shape_fields(1) [OF keeps_shape(1) [OF 1]] Suc.prems(1) by simp
  have d: "d = length cs - Suc i" using Suc.hyps(2) by simp
  have 3: "QtListProperty_setValue_loop eq (Suc (k + (length cs - Suc i))) w1 n vl (Suc i) = Inr w'"
    using Suc.hyps(1) [OF d c1 Suc.prems(2) 2] .
  have e: "k + (length cs - i) = Suc (k + (length cs - Suc i))" using i by simp
  have 4: "setValue eq (k + (length cs - i)) w (cs ! i) (vl ! i) = Inr w1"
    using fuel_mono(1) [OF _ 1, of "k + (length cs - i)"] by simp
  show ?case
    using i iv 3 4 Suc.prems(1)
    by (subst QtListProperty_setValue_loop.simps(2)) (simp add: e)
qed

lemma dict_loop_each:
  "setValue_each eq k w (map (\<lambda>c. (c, map_value vm (m_name (heap w c)))) cs) = Inr w' \<Longrightarrow>
   QtDictProperty_setValue_loop eq (Suc (k + length cs)) w vm cs = Inr w'"
proof (induction cs arbitrary: w)
  case Nil
  then show ?case by (simp add: QtDictProperty_setValue_loop.simps)
next
  case (Cons c cs)
  from Cons.prems obtain w1 where 1: "setValue eq k w c (map_value vm (m_name (heap w c))) = Inr w1"
    and 2: "setValue_each eq k w1 (map (\<lambda>c. (c, map_value vm (m_name (heap w c)))) cs) = Inr w'"
    by (auto split: sum.splits)
  have "\<And>c. m_name (heap w1 c) = m_name (heap w c)"
    using same_shape_fields(4) [OF keeps_shape(1) [OF 1]] .
  then have 3: "QtDictProperty_setValue_loop eq (Suc (k + length cs)) w1 vm cs = Inr w'"
    using Cons.IH [of w1] 2 by simp
  have 4: "setValue eq (Suc (k + length cs)) w c (map_value vm (m_name (heap w c))) = Inr w1"
    using fuel_mono(1) [OF _ 1, of "Suc (k + length cs)"] by simp
  show ?case
    using 3 4 by (simp add: QtDictProperty_setValue_loop.simps)
qed

lemma expects_cong:
  assumes "same_shape w w'"
    and "\<And>p. m_parent (heap w n) = Some p \<Longrightarrow> m_value (heap w' p) = m_value (heap w p)"
  shows "expects w' n x = expects w n x"
proof (cases "m_parent (heap w n)")
  case None
  then show ?thesis by (simp add: expects_def same_shape_fields [OF assms(1)])
next
  case (Some p)
  then show ?thesis
    using assms(2) [OF Some]
    by (simp add: expects_def indexChild_def same_shape_fields [OF assms(1)]
          split: prop_class.splits)
qed

lemma below_of_child:
  assumes "wf_tree depth B w" and "c \<in> set (m_children (heap w n))" and "below w c a"
  shows "ancestor w n a"
  using below_child [OF wf_tree_child [OF assms(1,2)] assms(3)] .

lemma expects_list_child:
  assumes wf: "wf_tree depth B w" and cl: "cls (heap w n) = QtListProperty"
    and i: "i < length (m_children (heap w n))"
  shows "expects w (m_children (heap w n) ! i)
           (pad_to (length (m_children (heap w n))) (toList (m_value (heap w n))) ! i)"
proof -
  let ?c = "m_children (heap w n) ! i"
  have p: "m_parent (heap w ?c) = Some n"
    using wf_tree_child [OF wf] i by simp
  have ix: "indexChild w n ?c = int i" using indexChild_nth [OF wf i] .
  show ?thesis
    using pad_to_nth [of i "Suc i" "length (m_children (heap w n))"] i
    by (simp add: expects_def p cl ix)
qed

lemma expects_dict_child:
  assumes wf: "wf_tree depth B w" and cl: "cls (heap w n) = QtDictProperty"
    and c: "c \<in> set (m_children (heap w n))"
  shows "expects w c (map_value (toMap (m_value (heap w n))) (m_name (heap w c)))"
  using wf_tree_child [OF wf c] by (simp add: expects_def cl)

text \<open>
  The children phase of a list and of a dictionary, given what \<open>setValue\<close> does on each
  child, when the values handed down equal themselves.
\<close>

lemma list_phase:
  assumes wf: "wf_tree depth B w" and cl: "cls (heap w n) = QtListProperty"
    and cs: "cs = m_children (heap w n)"
    and vl: "vl = pad_to (length cs) (toList (m_value (heap w n)))"
    and se: "\<And>i. i < length cs \<Longrightarrow> self_equal eq (vl ! i)"
    and E: "\<And>c w1 y. c \<in> set cs \<Longrightarrow> wf_tree depth B w1 \<Longrightarrow> expects w1 c y \<Longrightarrow>
              self_equal eq y \<Longrightarrow>
              \<exists>k w' evs. setValue eq k w1 c y = Inr w' \<and> sinks eq w1 c y w' evs"
  shows "\<exists>k w' evs. QtListProperty_setValue_loop eq k w n vl 0 = Inr w' \<and>
      setValue_each eq k w (zip cs vl) = Inr w' \<and> same_shape w w' \<and>
      events w' = events w @ evs \<and>
      (\<forall>e \<in> set evs. ancestor w n (sender e)) \<and>
      (\<forall>a. \<not> ancestor w n a \<longrightarrow> heap w' a = heap w a) \<and>
      (\<forall>i < length cs.
         (cls (heap w (cs ! i)) \<noteq> QtGroupProperty \<and> \<not> eq (m_value (heap w (cs ! i))) (vl ! i) \<longrightarrow>
            m_value (heap w' (cs ! i)) = vl ! i) \<and>
         (eq (m_value (heap w (cs ! i))) (vl ! i) \<or> cls (heap w (cs ! i)) = QtGroupProperty \<longrightarrow>
            heap w' (cs ! i) = heap w (cs ! i) \<and> (\<forall>e \<in> set evs. sender e \<noteq> cs ! i)))"
proof -
  have len: "length cs \<le> length vl" by (simp add: vl length_pad_to)
  have dist: "distinct cs" using wf by (simp add: cs wf_tree_def tree_inv_def)
  have fst: "fst ` set (zip cs vl) = set cs"
    using len by (metis map_fst_zip_take min.absorb1 list.set_map take_all order_refl)
  have "\<exists>k w' evs. setValue_each eq k w (zip cs vl) = Inr w' \<and> same_shape w w' \<and>
      events w' = events w @ evs \<and>
      (\<forall>e \<in> set evs. \<exists>c \<in> fst ` set (zip cs vl). below w c (sender e)) \<and>
      (\<forall>a. (\<forall>c \<in> fst ` set (zip cs vl). \<not> below w c a) \<longrightarrow> heap w' a = heap w a) \<and>
      (\<forall>(c, x) \<in> set (zip cs vl).
         (cls (heap w c) \<noteq> QtGroupProperty \<and> \<not> eq (m_value (heap w c)) x \<longrightarrow>
            m_value (heap w' c) = x) \<and>
         (eq (m_value (heap w c)) x \<or> cls (heap w c) = QtGroupProperty \<longrightarrow>
            heap w' c = heap w c \<and> (\<forall>e \<in> set evs. sender e \<noteq> c)))"
  proof (rule setValue_each_sinks [OF wf, where n = n and v = "m_value (heap w n)"])
    show "\<And>c x. (c, x) \<in> set (zip cs vl) \<Longrightarrow> m_parent (heap w c) = Some n"
      using wf_tree_child [OF wf] by (auto simp: cs dest: set_zip_leftD)
    show "distinct (map fst (zip cs vl))"
      using dist len by (simp add: map_fst_zip_take)
    show "same_shape w w" by simp
    show "m_value (heap w n) = m_value (heap w n)" by simp
    show "\<exists>k w' evs. setValue eq k w1 c x = Inr w' \<and> sinks eq w1 c x w' evs"
      if in_zip: "(c, x) \<in> set (zip cs vl)" and sh: "same_shape w w1"
        and val: "m_value (heap w1 n) = m_value (heap w n)" for c x w1
    proof -
      obtain i where i: "i < length cs" and ci: "c = cs ! i" and xi: "x = vl ! i"
        using in_zip by (auto simp: in_set_zip)
      have wf1: "wf_tree depth B w1" using same_shape_wf_tree [OF sh wf] .
      have c1: "m_children (heap w1 n) = cs" using same_shape_fields(1) [OF sh] cs by simp
      have "expects w1 c x"
        using expects_list_child [OF wf1, of n i] cl i
        by (simp add: c1 ci xi vl val same_shape_fields(3) [OF sh])
      moreover have "self_equal eq x" using se [OF i] xi by simp
      ultimately show ?thesis using E [of c w1 x] wf1 i ci by simp
    qed
  qed
  then obtain k1 w' evs where ea: "setValue_each eq k1 w (zip cs vl) = Inr w'"
    and sh: "same_shape w w'" and ev: "events w' = events w @ evs"
    and sd: "\<forall>e \<in> set evs. \<exists>c \<in> set cs. below w c (sender e)"
    and fr: "\<forall>a. (\<forall>c \<in> set cs. \<not> below w c a) \<longrightarrow> heap w' a = heap w a"
    and ch: "\<forall>(c, x) \<in> set (zip cs vl).
         (cls (heap w c) \<noteq> QtGroupProperty \<and> \<not> eq (m_value (heap w c)) x \<longrightarrow>
            m_value (heap w' c) = x) \<and>
         (eq (m_value (heap w c)) x \<or> cls (heap w c) = QtGroupProperty \<longrightarrow>
            heap w' c = heap w c \<and> (\<forall>e \<in> set evs. sender e \<noteq> c))"
    unfolding fst by blast
  let ?k = "Suc (k1 + length cs)"
  have 1: "QtListProperty_setValue_loop eq ?k w n vl 0 = Inr w'"
    using list_loop_each [of w n cs vl eq k1 0 w'] cs len ea by simp
  have 2: "setValue_each eq ?k w (zip cs vl) = Inr w'"
    using setValue_each_mono [OF _ ea, of ?k] by simp
  have 3: "\<forall>e \<in> set evs. ancestor w n (sender e)"
    using sd below_of_child [OF wf] cs by blast
  have 4: "\<forall>a. \<not> ancestor w n a \<longrightarrow> heap w' a = heap w a"
    using fr below_of_child [OF wf] cs by blast
  have 5: "\<forall>i < length cs.
         (cls (heap w (cs ! i)) \<noteq> QtGroupProperty \<and> \<not> eq (m_value (heap w (cs ! i))) (vl ! i) \<longrightarrow>
            m_value (heap w' (cs ! i)) = vl ! i) \<and>
         (eq (m_value (heap w (cs ! i))) (vl ! i) \<or> cls (heap w (cs ! i)) = QtGroupProperty \<longrightarrow>
            heap w' (cs ! i) = heap w (cs ! i) \<and> (\<forall>e \<in> set evs. sender e \<noteq> cs ! i))"
  proof (intro allI impI)
    fix i assume "i < length cs"
    then have "(cs ! i, vl ! i) \<in> set (zip cs vl)"
      using len by (auto simp: in_set_zip)
    then show "(cls (heap w (cs ! i)) \<noteq> QtGroupProperty \<and>
            \<not> eq (m_value (heap w (cs ! i))) (vl ! i) \<longrightarrow>
            m_value (heap w' (cs ! i)) = vl ! i) \<and>
         (eq (m_value (heap w (cs ! i))) (vl ! i) \<or> cls (heap w (cs ! i)) = QtGroupProperty \<longrightarrow>
            heap w' (cs ! i) = heap w (cs ! i) \<and> (\<forall>e \<in> set evs. sender e \<noteq> cs ! i))"
      using ch by fastforce
  qed
  from 1 2 sh ev 3 4 5 show ?thesis by blast
qed

lemma dict_phase:
  assumes wf: "wf_tree depth B w" and cl: "cls (heap w n) = QtDictProperty"
    and cs: "cs = m_children (heap w n)"
    and vm: "vm = toMap (m_value (heap w n))"
    and se: "\<And>c. c \<in> set cs \<Longrightarrow> self_equal eq (map_value vm (m_name (heap w c)))"
    and E: "\<And>c w1 y. c \<in> set cs \<Longrightarrow> wf_tree depth B w1 \<Longrightarrow> expects w1 c y \<Longrightarrow>
              self_equal eq y \<Longrightarrow>
              \<exists>k w' evs. setValue eq k w1 c y = Inr w' \<and> sinks eq w1 c y w' evs"
  shows "\<exists>k w' evs. QtDictProperty_setValue_loop eq k w vm cs = Inr w' \<and>
      setValue_each eq k w (map (\<lambda>c. (c, map_value vm (m_name (heap w c)))) cs) = Inr w' \<and>
      same_shape w w' \<and> events w' = events w @ evs \<and>
      (\<forall>e \<in> set evs. ancestor w n (sender e)) \<and>
      (\<forall>a. \<not> ancestor w n a \<longrightarrow> heap w' a = heap w a) \<and>
      (\<forall>c \<in> set cs.
         (cls (heap w c) \<noteq> QtGroupProperty \<and>
          \<not> eq (m_value (heap w c)) (map_value vm (m_name (heap w c))) \<longrightarrow>
            m_value (heap w' c) = map_value vm (m_name (heap w c))) \<and>
         (eq (m_value (heap w c)) (map_value vm (m_name (heap w c))) \<or>
          cls (heap w c) = QtGroupProperty \<longrightarrow>
            heap w' c = heap w c \<and> (\<forall>e \<in> set evs. sender e \<noteq> c)))"
proof -
  let ?ps = "map (\<lambda>c. (c, map_value vm (m_name (heap w c)))) cs"
  have dist: "distinct cs" using wf by (simp add: cs wf_tree_def tree_inv_def)
  have fst: "fst ` set ?ps = set cs" by force
  have "\<exists>k w' evs. setValue_each eq k w ?ps = Inr w' \<and> same_shape w w' \<and>
      events w' = events w @ evs \<and>
      (\<forall>e \<in> set evs. \<exists>c \<in> fst ` set ?ps. below w c (sender e)) \<and>
      (\<forall>a. (\<forall>c \<in> fst ` set ?ps. \<not> below w c a) \<longrightarrow> heap w' a = heap w a) \<and>
      (\<forall>(c, x) \<in> set ?ps.
         (cls (heap w c) \<noteq> QtGroupProperty \<and> \<not> eq (m_value (heap w c)) x \<longrightarrow>
            m_value (heap w' c) = x) \<and>
         (eq (m_value (heap w c)) x \<or> cls (heap w c) = QtGroupProperty \<longrightarrow>
            heap w' c = heap w c \<and> (\<forall>e \<in> set evs. sender e \<noteq> c)))"
  proof (rule setValue_each_sinks [OF wf, where n = n and v = "m_value (heap w n)"])
    show "\<And>c x. (c, x) \<in> set ?ps \<Longrightarrow> m_parent (heap w c) = Some n"
      using wf_tree_child [OF wf] by (auto simp: cs)
    show "distinct (map fst ?ps)"
      using dist by (simp add: comp_def)
    show "same_shape w w" by simp
    show "m_value (heap w n) = m_value (heap w n)" by simp
    show "\<exists>k w' evs. setValue eq k w1 c x = Inr w' \<and> sinks eq w1 c x w' evs"
      if in_ps: "(c, x) \<in> set ?ps" and sh: "same_shape w w1"
        and val: "m_value (heap w1 n) = m_value (heap w n)" for c x w1
    proof -
      have c: "c \<in> set cs" and x: "x = map_value vm (m_name (heap w c))"
        using in_ps by auto
      have wf1: "wf_tree depth B w1" using same_shape_wf_tree [OF sh wf] .
      have "expects w1 c x"
        using expects_dict_child [OF wf1, of n c] cl c
        by (simp add: x vm val cs same_shape_fields [OF sh])
      moreover have "self_equal eq x" using se [OF c] x by simp
      ultimately show ?thesis using E [of c w1 x] wf1 c by simp
    qed
  qed
  then obtain k1 w' evs where ea: "setValue_each eq k1 w ?ps = Inr w'"
    and sh: "same_shape w w'" and ev: "events w' = events w @ evs"
    and sd: "\<forall>e \<in> set evs. \<exists>c \<in> set cs. below w c (sender e)"
    and fr: "\<forall>a. (\<forall>c \<in> set cs. \<not> below w c a) \<longrightarrow> heap w' a = heap w a"
    and ch: "\<forall>(c, x) \<in> set ?ps.
         (cls (heap w c) \<noteq> QtGroupProperty \<and> \<not> eq (m_value (heap w c)) x \<longrightarrow>
            m_value (heap w' c) = x) \<and>
         (eq (m_value (heap w c)) x \<or> cls (heap w c) = QtGroupProperty \<longrightarrow>
            heap w' c = heap w c \<and> (\<forall>e \<in> set evs. sender e \<noteq> c))"
    unfolding fst by blast
  let ?k = "Suc (k1 + length cs)"
  have 1: "QtDictProperty_setValue_loop eq ?k w vm cs = Inr w'"
    using dict_loop_each [OF ea] .
  have 2: "setValue_each eq ?k w ?ps = Inr w'"
    using setValue_each_mono [OF _ ea, of ?k] by simp
  have 3: "\<forall>e \<in> set evs. ancestor w n (sender e)"
    using sd below_of_child [OF wf] cs by blast
  have 4: "\<forall>a. \<not> ancestor w n a \<longrightarrow> heap w' a = heap w a"
    using fr below_of_child [OF wf] cs by blast
  have 5: "\<forall>c \<in> set cs.
         (cls (heap w c) \<noteq> QtGroupProperty \<and>
          \<not> eq (m_value (heap w c)) (map_value vm (m_name (heap w c))) \<longrightarrow>
            m_value (heap w' c) = map_value vm (m_name (heap w c))) \<and>
         (eq (m_value (heap w c)) (map_value vm (m_name (heap w c))) \<or>
          cls (heap w c) = QtGroupProperty \<longrightarrow>
            heap w' c = heap w c \<and> (\<forall>e \<in> set evs. sender e \<noteq> c))"
    using ch by auto
  from 1 2 sh ev 3 4 5 show ?thesis by blast
qed

lemma expects_set_value_self:
  assumes "wf_tree depth B w"
  shows "expects (set_value n v w) n x = expects w n x"
proof (rule expects_cong [OF same_shape_set_value])
  fix p assume "m_parent (heap w n) = Some p"
  then have "p \<noteq> n" using wf_tree_parent(5) [OF assms] by simp
  then show "m_value (heap (set_value n v w) p) = m_value (heap w p)" by simp
qed

text \<open>
  In a forest, \<open>setValue x\<close> on a node returns; when the container above already expects
  \<open>x\<close> and \<open>x\<close> is equal to itself, with all that is nested in it, only the subtree under
  the node changes and sends.
\<close>

lemma setValue_sinks:
  assumes "wf_tree depth B w" and "expects w n x" and "self_equal eq x"
  shows "\<exists>k w' evs. setValue eq k w n x = Inr w' \<and> sinks eq w n x w' evs"
  using assms
proof (induction "B - depth n" arbitrary: n w x rule: less_induct)
  case less
  note wf = less.prems(1) and ex = less.prems(2) and sx = less.prems(3)
  have na: "\<not> ancestor w n n" using not_own_ancestor [OF wf] .
  have noop: ?case if "setValue eq (Suc 0) w n x = Inr w"
    and "cls (heap w n) = QtGroupProperty \<or> eq (m_value (heap w n)) x"
  proof -
    have "sinks eq w n x w []" using that(2) by (auto simp: sinks_def)
    then show ?thesis using that(1) by blast
  qed
  have E: "\<exists>k w' evs. setValue eq k w1 c y = Inr w' \<and> sinks eq w1 c y w' evs"
    if "c \<in> set (m_children (heap w n))" and "wf_tree depth B w1" and "expects w1 c y"
      and "self_equal eq y"
    for c w1 y
  proof -
    have "depth n < depth c" and "depth c \<le> B"
      using wf_tree_parent(2,3) [OF wf wf_tree_child [OF wf that(1)]] by simp_all
    then have "B - depth c < B - depth n" by simp
    then show ?thesis using less.hyps that(2,3,4) by blast
  qed
  have finish: ?case
    if ne: "\<not> eq (m_value (heap w n)) x" and ng: "cls (heap w n) \<noteq> QtGroupProperty"
      and run: "\<And>k w3. signalValueChange eq k w2 n n = Inr w3 \<Longrightarrow>
                  setValue eq (Suc (max k k2)) w n x = Inr w3"
      and sh: "same_shape (set_value n x w) w2"
      and ev: "events w2 = events w @ evs"
      and se: "\<forall>e \<in> set evs. ancestor w n (sender e)"
      and fr: "\<forall>a. \<not> ancestor w n a \<longrightarrow> heap w2 a = heap (set_value n x w) a"
    for w2 k2 evs
  proof -
    have wf2: "wf_tree depth B w2"
      using same_shape_wf_tree [OF sh wf_tree_set_value [OF wf]] .
    have sh2: "same_shape w w2" using same_shape_via_set_value [OF sh] .
    have v2: "m_value (heap w2 n) = x" using fr na by simp
    have "expects w2 n x = expects w n x"
    proof (rule expects_cong [OF sh2])
      fix p assume p: "m_parent (heap w n) = Some p"
      have "\<not> ancestor w n p"
        using ancestor_depth [OF wf, of n p] wf_tree_parent(2) [OF wf p] by auto
      moreover have "p \<noteq> n" using wf_tree_parent(5) [OF wf p] .
      ultimately show "m_value (heap w2 p) = m_value (heap w p)" using fr by simp
    qed
    then have "expects w2 n (m_value (heap w2 n))" using ex v2 by simp
    moreover have "eq (m_value (heap w2 n)) (m_value (heap w2 n))"
      using self_equal_refl [OF sx] v2 by simp
    ultimately obtain k
      where s: "signalValueChange eq k w2 n n = Inr (emit (ValueChange n n) w2)"
      using signal_absorbed [OF wf2] by blast
    let ?w3 = "emit (ValueChange n n) w2"
    have 1: "setValue eq (Suc (max k k2)) w n x = Inr ?w3" using run [OF s] .
    have "sinks eq w n x ?w3 (evs @ [ValueChange n n])"
      unfolding sinks_def
    proof (intro conjI)
      show "same_shape w ?w3" using same_shape_trans [OF sh2 same_shape_emit] .
      show "events ?w3 = events w @ evs @ [ValueChange n n]" using ev by simp
      show "\<forall>e \<in> set (evs @ [ValueChange n n]). below w n (sender e)"
        using se by (auto simp: below_def)
      show "\<forall>a. \<not> below w n a \<longrightarrow> heap ?w3 a = heap w a"
        using fr by (auto simp: below_def)
      show "cls (heap w n) \<noteq> QtGroupProperty \<and> \<not> eq (m_value (heap w n)) x \<longrightarrow>
            m_value (heap ?w3 n) = x"
        using v2 by simp
      show "cls (heap w n) = QtGroupProperty \<or> eq (m_value (heap w n)) x \<longrightarrow>
            ?w3 = w \<and> evs @ [ValueChange n n] = []"
        using ne ng by simp
    qed
    then show ?thesis using 1 by blast
  qed
  show ?case
  proof (cases "eq (m_value (heap w n)) x \<or> cls (heap w n) = QtGroupProperty")
    case True
    then have "setValue eq (Suc 0) w n x = Inr w"
      by (auto simp: setValue.simps split: prop_class.splits)
    then show ?thesis using noop True by blast
  next
    case False
    then have ne: "\<not> eq (m_value (heap w n)) x" and ng: "cls (heap w n) \<noteq> QtGroupProperty"
      by simp_all
    let ?w1 = "set_value n x w"
    have wf1: "wf_tree depth B ?w1" using wf_tree_set_value [OF wf] .
    have an1: "\<And>a c. ancestor ?w1 a c = ancestor w a c" by simp
    show ?thesis
    proof (cases "cls (heap w n)")
      case QtGroupProperty
      then show ?thesis using ng by simp
    next
      case QtProperty
      show ?thesis
      proof (rule finish [OF ne ng, of ?w1 0 "[]"])
        show "\<And>k w3. signalValueChange eq k ?w1 n n = Inr w3 \<Longrightarrow>
                  setValue eq (Suc (max k 0)) w n x = Inr w3"
          using ne QtProperty by (simp add: setValue.simps)
      qed simp_all
    next
      case QtListProperty
      let ?cs = "m_children (heap w n)"
      let ?vl = "pad_to (length ?cs) (toList x)"
      have sv: "self_equal eq (?vl ! i)" if "i < length ?cs" for i
        using self_equal_pad_to [OF sx, of i "length ?cs"] that by (simp add: length_pad_to)
      have "\<exists>k w' evs. QtListProperty_setValue_loop eq k ?w1 n ?vl 0 = Inr w' \<and>
        setValue_each eq k ?w1 (zip ?cs ?vl) = Inr w' \<and> same_shape ?w1 w' \<and>
        events w' = events ?w1 @ evs \<and>
        (\<forall>e \<in> set evs. ancestor ?w1 n (sender e)) \<and>
        (\<forall>a. \<not> ancestor ?w1 n a \<longrightarrow> heap w' a = heap ?w1 a) \<and>
        (\<forall>i < length ?cs.
           (cls (heap ?w1 (?cs ! i)) \<noteq> QtGroupProperty \<and>
            \<not> eq (m_value (heap ?w1 (?cs ! i))) (?vl ! i) \<longrightarrow>
              m_value (heap w' (?cs ! i)) = ?vl ! i) \<and>
           (eq (m_value (heap ?w1 (?cs ! i))) (?vl ! i) \<or>
            cls (heap ?w1 (?cs ! i)) = QtGroupProperty \<longrightarrow>
              heap w' (?cs ! i) = heap ?w1 (?cs ! i) \<and>
              (\<forall>e \<in> set evs. sender e \<noteq> ?cs ! i)))"
        by (rule list_phase [OF wf1]) (use QtListProperty E sv in simp_all)
      then obtain k2 w2 evs where lp: "QtListProperty_setValue_loop eq k2 ?w1 n ?vl 0 = Inr w2"
        and sh: "same_shape ?w1 w2" and ev: "events w2 = events ?w1 @ evs"
        and se: "\<forall>e \<in> set evs. ancestor w n (sender e)"
        and fr: "\<forall>a. \<not> ancestor w n a \<longrightarrow> heap w2 a = heap ?w1 a"
        unfolding an1 by blast
      show ?thesis
      proof (rule finish [OF ne ng _ sh _ se fr, of k2])
        fix k w3 assume "signalValueChange eq k w2 n n = Inr w3"
        then have "signalValueChange eq (max k k2) w2 n n = Inr w3"
          using fuel_mono(4) [of k "max k k2"] by simp
        moreover have "QtListProperty_setValue_loop eq (max k k2) ?w1 n ?vl 0 = Inr w2"
          using fuel_mono(2) [OF _ lp, of "max k k2"] by simp
        ultimately show "setValue eq (Suc (max k k2)) w n x = Inr w3"
          using ne QtListProperty by (simp add: setValue.simps Let_def ensureSize_pad_to)
      next
        show "events w2 = events w @ evs" using ev by simp
      qed
    next
      case QtDictProperty
      let ?cs = "m_children (heap w n)"
      let ?vm = "toMap x"
      have sv: "self_equal eq (map_value ?vm name)" for name
        using self_equal_map_value [OF sx] .
      have "\<exists>k w' evs. QtDictProperty_setValue_loop eq k ?w1 ?vm ?cs = Inr w' \<and>
        setValue_each eq k ?w1 (map (\<lambda>c. (c, map_value ?vm (m_name (heap ?w1 c)))) ?cs) =
          Inr w' \<and>
        same_shape ?w1 w' \<and> events w' = events ?w1 @ evs \<and>
        (\<forall>e \<in> set evs. ancestor ?w1 n (sender e)) \<and>
        (\<forall>a. \<not> ancestor ?w1 n a \<longrightarrow> heap w' a = heap ?w1 a) \<and>
        (\<forall>c \<in> set ?cs.
           (cls (heap ?w1 c) \<noteq> QtGroupProperty \<and>
            \<not> eq (m_value (heap ?w1 c)) (map_value ?vm (m_name (heap ?w1 c))) \<longrightarrow>
              m_value (heap w' c) = map_value ?vm (m_name (heap ?w1 c))) \<and>
           (eq (m_value (heap ?w1 c)) (map_value ?vm (m_name (heap ?w1 c))) \<or>
            cls (heap ?w1 c) = QtGroupProperty \<longrightarrow>
              heap w' c = heap ?w1 c \<and> (\<forall>e \<in> set evs. sender e \<noteq> c)))"
        by (rule dict_phase [OF wf1]) (use QtDictProperty E sv in simp_all)
      then obtain k2 w2 evs where lp: "QtDictProperty_setValue_loop eq k2 ?w1 ?vm ?cs = Inr w2"
        and sh: "same_shape ?w1 w2" and ev: "events w2 = events ?w1 @ evs"
        and se: "\<forall>e \<in> set evs. ancestor w n (sender e)"
        and fr: "\<forall>a. \<not> ancestor w n a \<longrightarrow> heap w2 a = heap ?w1 a"
        unfolding an1 by blast
      show ?thesis
      proof (rule finish [OF ne ng _ sh _ se fr, of k2])
        fix k w3 assume "signalValueChange eq k w2 n n = Inr w3"
        then have "signalValueChange eq (max k k2) w2 n n = Inr w3"
          using fuel_mono(4) [of k "max k k2"] by simp
        moreover have "QtDictProperty_setValue_loop eq (max k k2) ?w1 ?vm ?cs = Inr w2"
          using fuel_mono(3) [OF _ lp, of "max k k2"] by simp
        ultimately show "setValue eq (Suc (max k k2)) w n x = Inr w3"
          using ne QtDictProperty by (simp add: setValue.simps Let_def)
      next
        show "events w2 = events w @ evs" using ev by simp
      qed
    qed
  qed
qed

text \<open>
  Whatever the comparison is, \<open>setValue\<close> returns on every node of a forest, and changes
  nothing but the node, what is under it and what is above it.
\<close>

lemma setValue_each_returns:
  assumes wf0: "wf_tree depth B w0"
  shows "(\<And>c x. (c, x) \<in> set ps \<Longrightarrow> m_parent (heap w0 c) = Some n) \<Longrightarrow>
    (\<And>c x w1. (c, x) \<in> set ps \<Longrightarrow> same_shape w0 w1 \<Longrightarrow>
        \<exists>k w'. setValue eq k w1 c x = Inr w' \<and>
          (\<forall>a. a \<noteq> c \<and> \<not> ancestor w0 c a \<and> \<not> ancestor w0 a c \<longrightarrow> heap w' a = heap w1 a)) \<Longrightarrow>
    same_shape w0 w \<Longrightarrow>
    \<exists>k w'. setValue_each eq k w ps = Inr w' \<and> same_shape w w' \<and>
      (\<forall>a. a \<noteq> n \<and> \<not> ancestor w0 n a \<and> \<not> ancestor w0 a n \<longrightarrow> heap w' a = heap w a)"
proof (induction ps arbitrary: w)
  case Nil
  show ?case by (intro exI [of _ 0] exI [of _ w]) simp
next
  case (Cons p rest)
  obtain c x where p: "p = (c, x)" by (cases p)
  have pc: "m_parent (heap w0 c) = Some n" using Cons.prems(1) [of c x] by (simp add: p)
  obtain k1 w1 where s1: "setValue eq k1 w c x = Inr w1"
    and fr1: "\<forall>a. a \<noteq> c \<and> \<not> ancestor w0 c a \<and> \<not> ancestor w0 a c \<longrightarrow> heap w1 a = heap w a"
    using Cons.prems(2) [of c x w] Cons.prems(3) by (auto simp: p)
  have sh1: "same_shape w w1" using keeps_shape(1) [OF s1] .
  have sh01: "same_shape w0 w1" using same_shape_trans [OF Cons.prems(3) sh1] .
  have "\<exists>k w'. setValue_each eq k w1 rest = Inr w' \<and> same_shape w1 w' \<and>
      (\<forall>a. a \<noteq> n \<and> \<not> ancestor w0 n a \<and> \<not> ancestor w0 a n \<longrightarrow> heap w' a = heap w1 a)"
  proof (rule Cons.IH)
    show "\<And>c x. (c, x) \<in> set rest \<Longrightarrow> m_parent (heap w0 c) = Some n"
      using Cons.prems(1) by auto
    show "\<And>c x w1. (c, x) \<in> set rest \<Longrightarrow> same_shape w0 w1 \<Longrightarrow>
        \<exists>k w'. setValue eq k w1 c x = Inr w' \<and>
          (\<forall>a. a \<noteq> c \<and> \<not> ancestor w0 c a \<and> \<not> ancestor w0 a c \<longrightarrow> heap w' a = heap w1 a)"
      using Cons.prems(2) by auto
    show "same_shape w0 w1" by (rule sh01)
  qed
  then obtain k2 w' where s2: "setValue_each eq k2 w1 rest = Inr w'"
    and sh2: "same_shape w1 w'"
    and fr2: "\<forall>a. a \<noteq> n \<and> \<not> ancestor w0 n a \<and> \<not> ancestor w0 a n \<longrightarrow> heap w' a = heap w1 a"
    by blast
  let ?k = "max k1 k2"
  have "setValue eq ?k w c x = Inr w1" using fuel_mono(1) [OF _ s1, of ?k] by simp
  moreover have "setValue_each eq ?k w1 rest = Inr w'"
    using setValue_each_mono [OF _ s2, of ?k] by simp
  ultimately have 1: "setValue_each eq ?k w (p # rest) = Inr w'" by (simp add: p)
  have 2: "same_shape w w'" using same_shape_trans [OF sh1 sh2] .
  have 3: "heap w' a = heap w a"
    if a: "a \<noteq> n \<and> \<not> ancestor w0 n a \<and> \<not> ancestor w0 a n" for a
  proof -
    have nc: "ancestor w0 n c" using pc by (rule ancestor.parent)
    have "a \<noteq> c" using a nc by auto
    moreover have "\<not> ancestor w0 c a" using a ancestor_trans [OF _ nc, of a] by auto
    moreover have "\<not> ancestor w0 a c"
    proof
      assume "ancestor w0 a c"
      then have "a = n \<or> ancestor w0 a n" using ancestor_cases [of w0 a c] pc by auto
      then show False using a by simp
    qed
    ultimately have "heap w1 a = heap w a" using fr1 by simp
    then show ?thesis using fr2 a by simp
  qed
  from 1 2 3 show ?case by blast
qed

lemma list_phase_returns:
  assumes wf: "wf_tree depth B w" and cs: "cs = m_children (heap w n)"
    and len: "length cs \<le> length vl"
    and E: "\<And>c w1 y. c \<in> set cs \<Longrightarrow> wf_tree depth B w1 \<Longrightarrow>
              \<exists>k w'. setValue eq k w1 c y = Inr w' \<and>
                (\<forall>a. a \<noteq> c \<and> \<not> ancestor w1 c a \<and> \<not> ancestor w1 a c \<longrightarrow> heap w' a = heap w1 a)"
  shows "\<exists>k w'. QtListProperty_setValue_loop eq k w n vl 0 = Inr w' \<and>
      setValue_each eq k w (zip cs vl) = Inr w' \<and> same_shape w w' \<and>
      (\<forall>a. a \<noteq> n \<and> \<not> ancestor w n a \<and> \<not> ancestor w a n \<longrightarrow> heap w' a = heap w a)"
proof -
  have "\<exists>k w'. setValue_each eq k w (zip cs vl) = Inr w' \<and> same_shape w w' \<and>
      (\<forall>a. a \<noteq> n \<and> \<not> ancestor w n a \<and> \<not> ancestor w a n \<longrightarrow> heap w' a = heap w a)"
  proof (rule setValue_each_returns [OF wf])
    show "\<And>c x. (c, x) \<in> set (zip cs vl) \<Longrightarrow> m_parent (heap w c) = Some n"
      using wf_tree_child [OF wf] by (auto simp: cs dest: set_zip_leftD)
    show "same_shape w w" by simp
    show "\<exists>k w'. setValue eq k w1 c x = Inr w' \<and>
          (\<forall>a. a \<noteq> c \<and> \<not> ancestor w c a \<and> \<not> ancestor w a c \<longrightarrow> heap w' a = heap w1 a)"
      if "(c, x) \<in> set (zip cs vl)" and sh: "same_shape w w1" for c x w1
    proof -
      have "c \<in> set cs" using that(1) by (rule set_zip_leftD)
      then show ?thesis
        using E [of c w1 x] same_shape_wf_tree [OF sh wf]
        unfolding same_shape_ancestor [OF sh] by simp
    qed
  qed
  then obtain k1 w' where ea: "setValue_each eq k1 w (zip cs vl) = Inr w'"
    and sh: "same_shape w w'"
    and fr: "\<forall>a. a \<noteq> n \<and> \<not> ancestor w n a \<and> \<not> ancestor w a n \<longrightarrow> heap w' a = heap w a"
    by blast
  let ?k = "Suc (k1 + length cs)"
  have 1: "QtListProperty_setValue_loop eq ?k w n vl 0 = Inr w'"
    using list_loop_each [of w n cs vl eq k1 0 w'] cs len ea by simp
  have 2: "setValue_each eq ?k w (zip cs vl) = Inr w'"
    using setValue_each_mono [OF _ ea, of ?k] by simp
  from 1 2 sh fr show ?thesis by blast
qed

lemma dict_phase_returns:
  assumes wf: "wf_tree depth B w" and cs: "cs = m_children (heap w n)"
    and E: "\<And>c w1 y. c \<in> set cs \<Longrightarrow> wf_tree depth B w1 \<Longrightarrow>
              \<exists>k w'. setValue eq k w1 c y = Inr w' \<and>
                (\<forall>a. a \<noteq> c \<and> \<not> ancestor w1 c a \<and> \<not> ancestor w1 a c \<longrightarrow> heap w' a = heap w1 a)"
  shows "\<exists>k w'. QtDictProperty_setValue_loop eq k w vm cs = Inr w' \<and>
      setValue_each eq k w (map (\<lambda>c. (c, map_value vm (m_name (heap w c)))) cs) = Inr w' \<and>
      same_shape w w' \<and>
      (\<forall>a. a \<noteq> n \<and> \<not> ancestor w n a \<and> \<not> ancestor w a n \<longrightarrow> heap w' a = heap w a)"
proof -
  let ?ps = "map (\<lambda>c. (c, map_value vm (m_name (heap w c)))) cs"
  have "\<exists>k w'. setValue_each eq k w ?ps = Inr w' \<and> same_shape w w' \<and>
      (\<forall>a. a \<noteq> n \<and> \<not> ancestor w n a \<and> \<not> ancestor w a n \<longrightarrow> heap w' a = heap w a)"
  proof (rule setValue_each_returns [OF wf])
    show "\<And>c x. (c, x) \<in> set ?ps \<Longrightarrow> m_parent (heap w c) = Some n"
      using wf_tree_child [OF wf] by (auto simp: cs)
    show "same_shape w w" by simp
    show "\<exists>k w'. setValue eq k w1 c x = Inr w' \<and>
          (\<forall>a. a \<noteq> c \<and> \<not> ancestor w c a \<and> \<not> ancestor w a c \<longrightarrow> heap w' a = heap w1 a)"
      if "(c, x) \<in> set ?ps" and sh: "same_shape w w1" for c x w1
    proof -
      have "c \<in> set cs" using that(1) by auto
      then show ?thesis
        using E [of c w1 x] same_shape_wf_tree [OF sh wf]
        unfolding same_shape_ancestor [OF sh] by simp
    qed
  qed
  then obtain k1 w' where ea: "setValue_each eq k1 w ?ps = Inr w'"
    and sh: "same_shape w w'"
    and fr: "\<forall>a. a \<noteq> n \<and> \<not> ancestor w n a \<and> \<not> ancestor w a n \<longrightarrow> heap w' a = heap w a"
    by blast
  let ?k = "Suc (k1 + length cs)"
  have 1: "QtDictProperty_setValue_loop eq ?k w vm cs = Inr w'"
    using dict_loop_each [OF ea] .
  have 2: "setValue_each eq ?k w ?ps = Inr w'"
    using setValue_each_mono [OF _ ea, of ?k] by simp
  from 1 2 sh fr show ?thesis by blast
qed

lemma setValue_returns:
  assumes "wf_tree depth B w"
  shows "\<exists>k w'. setValue eq k w n v = Inr w' \<and> same_shape w w' \<and>
      (\<forall>a. a \<noteq> n \<and> \<not> ancestor w n a \<and> \<not> ancestor w a n \<longrightarrow> heap w' a = heap w a) \<and>
      (cls (heap w n) = QtGroupProperty \<or> eq (m_value (heap w n)) v \<longrightarrow> w' = w) \<and>
      (cls (heap w n) = QtProperty \<and> \<not> eq (m_value (heap w n)) v \<longrightarrow> m_value (heap w' n) = v)"
  using assms
proof (induction "B - depth n" arbitrary: n w v rule: less_induct)
  case less
  note wf = less.prems
  have E: "\<exists>k w'. setValue eq k w1 c y = Inr w' \<and>
      (\<forall>a. a \<noteq> c \<and> \<not> ancestor w1 c a \<and> \<not> ancestor w1 a c \<longrightarrow> heap w' a = heap w1 a)"
    if "c \<in> set (m_children (heap w n))" and "wf_tree depth B w1" for c w1 y
  proof -
    have "depth n < depth c" and "depth c \<le> B"
      using wf_tree_parent(2,3) [OF wf wf_tree_child [OF wf that(1)]] by simp_all
    then have "B - depth c < B - depth n" by simp
    then show ?thesis using less.hyps [OF _ that(2), of c y] by blast
  qed
  let ?w1 = "set_value n v w"
  have wf1: "wf_tree depth B ?w1" using wf_tree_set_value [OF wf] .
  have finish: ?case
    if run: "\<And>k w3. signalValueChange eq k w2 n n = Inr w3 \<Longrightarrow>
                setValue eq (Suc (max k k2)) w n v = Inr w3"
      and sh: "same_shape ?w1 w2"
      and fr: "\<forall>a. a \<noteq> n \<and> \<not> ancestor w n a \<and> \<not> ancestor w a n \<longrightarrow> heap w2 a = heap ?w1 a"
      and ne: "\<not> eq (m_value (heap w n)) v" and ng: "cls (heap w n) \<noteq> QtGroupProperty"
      and pl: "cls (heap w n) = QtProperty \<longrightarrow> w2 = ?w1"
    for w2 k2
  proof -
    have sh2: "same_shape w w2" using same_shape_via_set_value [OF sh] .
    have wf2: "wf_tree depth B w2" using same_shape_wf_tree [OF sh2 wf] .
    have an2: "\<And>a c. ancestor w2 a c = ancestor w a c"
      using same_shape_ancestor [OF sh2] .
    obtain k w3 where sg: "signalValueChange eq k w2 n n = Inr w3"
      and sh3: "same_shape w2 w3"
      and fr3: "\<forall>a. \<not> ancestor w a n \<longrightarrow> heap w3 a = heap w2 a"
      using signalValueChange_rises [OF wf2, of eq n n] unfolding an2 by blast
    have 1: "setValue eq (Suc (max k k2)) w n v = Inr w3" using run [OF sg] .
    have 2: "same_shape w w3" using same_shape_trans [OF sh2 sh3] .
    have 3: "\<forall>a. a \<noteq> n \<and> \<not> ancestor w n a \<and> \<not> ancestor w a n \<longrightarrow> heap w3 a = heap w a"
      using fr fr3 by simp
    have 4: "cls (heap w n) = QtGroupProperty \<or> eq (m_value (heap w n)) v \<longrightarrow> w3 = w"
      using ne ng by simp
    have "heap w3 n = heap w2 n" using fr3 not_own_ancestor [OF wf] by simp
    then have 5: "cls (heap w n) = QtProperty \<and> \<not> eq (m_value (heap w n)) v \<longrightarrow>
        m_value (heap w3 n) = v"
      using pl by simp
    from 1 2 3 4 5 show ?thesis by blast
  qed
  show ?case
  proof (cases "eq (m_value (heap w n)) v \<or> cls (heap w n) = QtGroupProperty")
    case True
    then have "setValue eq (Suc 0) w n v = Inr w"
      by (auto simp: setValue.simps split: prop_class.splits)
    then show ?thesis using True by (intro exI [of _ "Suc 0"] exI [of _ w]) auto
  next
    case False
    then have ne: "\<not> eq (m_value (heap w n)) v" and ng: "cls (heap w n) \<noteq> QtGroupProperty"
      by simp_all
    show ?thesis
    proof (cases "cls (heap w n)")
      case QtGroupProperty
      then show ?thesis using ng by simp
    next
      case QtProperty
      show ?thesis
      proof (rule finish [OF _ _ _ ne ng, of ?w1 0])
        show "\<And>k w3. signalValueChange eq k ?w1 n n = Inr w3 \<Longrightarrow>
                  setValue eq (Suc (max k 0)) w n v = Inr w3"
          using ne QtProperty by (simp add: setValue.simps)
      qed simp_all
    next
      case QtListProperty
      let ?cs = "m_children (heap w n)"
      let ?vl = "pad_to (length ?cs) (toList v)"
      have "\<exists>k w'. QtListProperty_setValue_loop eq k ?w1 n ?vl 0 = Inr w' \<and>
          setValue_each eq k ?w1 (zip ?cs ?vl) = Inr w' \<and> same_shape ?w1 w' \<and>
          (\<forall>a. a \<noteq> n \<and> \<not> ancestor ?w1 n a \<and> \<not> ancestor ?w1 a n \<longrightarrow> heap w' a = heap ?w1 a)"
        by (rule list_phase_returns [OF wf1]) (use E in \<open>simp_all add: length_pad_to\<close>)
      then obtain k2 w2 where lp: "QtListProperty_setValue_loop eq k2 ?w1 n ?vl 0 = Inr w2"
        and sh: "same_shape ?w1 w2"
        and fr: "\<forall>a. a \<noteq> n \<and> \<not> ancestor w n a \<and> \<not> ancestor w a n \<longrightarrow> heap w2 a = heap ?w1 a"
        by auto
      show ?thesis
      proof (rule finish [OF _ sh fr ne ng, of k2])
        fix k w3 assume "signalValueChange eq k w2 n n = Inr w3"
        then have "signalValueChange eq (max k k2) w2 n n = Inr w3"
          using fuel_mono(4) [of k "max k k2"] by simp
        moreover have "QtListProperty_setValue_loop eq (max k k2) ?w1 n ?vl 0 = Inr w2"
          using fuel_mono(2) [OF _ lp, of "max k k2"] by simp
        ultimately show "setValue eq (Suc (max k k2)) w n v = Inr w3"
          using ne QtListProperty by (simp add: setValue.simps Let_def ensureSize_pad_to)
      next
        show "cls (heap w n) = QtProperty \<longrightarrow> w2 = ?w1" using QtListProperty by simp
      qed
    next
      case QtDictProperty
      let ?cs = "m_children (heap w n)"
      let ?vm = "toMap v"
      have "\<exists>k w'. QtDictProperty_setValue_loop eq k ?w1 ?vm ?cs = Inr w' \<and>
          setValue_each eq k ?w1 (map (\<lambda>c. (c, map_value ?vm (m_name (heap ?w1 c)))) ?cs) =
            Inr w' \<and>
          same_shape ?w1 w' \<and>
          (\<forall>a. a \<noteq> n \<and> \<not> ancestor ?w1 n a \<and> \<not> ancestor ?w1 a n \<longrightarrow> heap w' a = heap ?w1 a)"
        by (rule dict_phase_returns [OF wf1]) (use E in simp_all)
      then obtain k2 w2 where lp: "QtDictProperty_setValue_loop eq k2 ?w1 ?vm ?cs = Inr w2"
        and sh: "same_shape ?w1 w2"
        and fr: "\<forall>a. a \<noteq> n \<and> \<not> ancestor w n a \<and> \<not> ancestor w a n \<longrightarrow> heap w2 a = heap ?w1 a"
        by auto
      show ?thesis
      proof (rule finish [OF _ sh fr ne ng, of k2])
        fix k w3 assume "signalValueChange eq k w2 n n = Inr w3"
        then have "signalValueChange eq (max k k2) w2 n n = Inr w3"
          using fuel_mono(4) [of k "max k k2"] by simp
        moreover have "QtDictProperty_setValue_loop eq (max k k2) ?w1 ?vm ?cs = Inr w2"
          using fuel_mono(3) [OF _ lp, of "max k k2"] by simp
        ultimately show "setValue eq (Suc (max k k2)) w n v = Inr w3"
          using ne QtDictProperty by (simp add: setValue.simps Let_def)
      next
        show "cls (heap w n) = QtProperty \<longrightarrow> w2 = ?w1" using QtDictProperty by simp
      qed
    qed
  qed
qed

subsection \<open>Setting the value of a list and of a dictionary\<close>

lemma child_not_ancestor:
  assumes "wf_tree depth B w" and "c \<in> set (m_children (heap w n))"
  shows "\<not> ancestor w c n" and "c \<noteq> n" and "ancestor w n c"
proof -
  note p = wf_tree_child [OF assms]
  show "\<not> ancestor w c n"
    using ancestor_depth [OF assms(1), of c n] wf_tree_parent(2) [OF assms(1) p] by auto
  show "c \<noteq> n" using wf_tree_parent(5) [OF assms(1) p] by simp
  show "ancestor w n c" using p by (rule ancestor.parent)
qed





lemma wf_tree_example_dict: "wf_tree example_depth 1 example_dict"
  by (auto simp: wf_tree_def tree_inv_def linked_def wired_def layered_def receivers_def
        example_dict_def node_def example_depth_def)

text \<open>
  Claim C5. Let \<open>d\<close> be a dictionary in a forest; the entry of a child is the entry of the
  mapping \<open>v\<close> stands for under the child's name, or the null value when there is none.

  \<^item> When the value the dictionary holds is equal to \<open>v\<close>, \<open>setValue v\<close> returns the
    store unchanged.
  \<^item> Otherwise it returns, whatever the comparison is: it is the calls
    \<open>child.setValue(entry)\<close> for every direct child in order, on the store where the
    dictionary holds \<open>v\<close>, followed by the dictionary's own notification, after which the
    dictionary sends nothing.
  \<^item> When moreover the entry of every child is equal to itself, with the values nested in
    it and the null value, the dictionary afterwards holds \<open>v\<close>; every child that is not a
    group and held a different value holds its entry; a child that held an equal value is
    unchanged; and exactly one of the notifications added is sent by the dictionary.

  Without the condition of the third part the dictionary can notify twice: see the
  counterexample below, a dictionary that is given a mapping holding NaN.
\<close>

theorem setValue_dict_property:
  assumes "wf_tree depth B w" and "cls (heap w d) = QtDictProperty"
  shows "(eq (m_value (heap w d)) v \<longrightarrow> (\<forall>k. setValue eq (Suc k) w d v = Inr w)) \<and>
    (\<not> eq (m_value (heap w d)) v \<longrightarrow>
       (\<exists>k w1 w' evs.
          setValue_each eq k (set_value d v w)
            (map (\<lambda>c. (c, case map_of (toMap v) (m_name (heap w c)) of
                             None \<Rightarrow> Null | Some x \<Rightarrow> x))
               (m_children (heap w d))) = Inr w1 \<and>
          signalValueChange eq k w1 d d = Inr w' \<and>
          setValue eq (Suc k) w d v = Inr w' \<and>
          same_shape w w' \<and>
          events w' = events w1 @ ValueChange d d # evs \<and>
          (\<forall>e \<in> set evs. sender e \<noteq> d))) \<and>
    (\<not> eq (m_value (heap w d)) v \<and>
     (\<forall>c \<in> set (m_children (heap w d)).
        self_equal eq (case map_of (toMap v) (m_name (heap w c)) of
                         None \<Rightarrow> Null | Some x \<Rightarrow> x)) \<longrightarrow>
       (\<exists>k w1 w' evs.
          setValue_each eq k (set_value d v w)
            (map (\<lambda>c. (c, case map_of (toMap v) (m_name (heap w c)) of
                             None \<Rightarrow> Null | Some x \<Rightarrow> x))
               (m_children (heap w d))) = Inr w1 \<and>
          signalValueChange eq k w1 d d = Inr w' \<and>
          setValue eq (Suc k) w d v = Inr w' \<and>
          same_shape w w' \<and> m_value (heap w' d) = v \<and>
          events w' = events w @ evs \<and>
          filter (\<lambda>e. sender e = d) evs = [ValueChange d d] \<and>
          (\<forall>c \<in> set (m_children (heap w d)).
             (cls (heap w c) \<noteq> QtGroupProperty \<and>
              \<not> eq (m_value (heap w c))
                   (case map_of (toMap v) (m_name (heap w c)) of None \<Rightarrow> Null | Some x \<Rightarrow> x) \<longrightarrow>
                m_value (heap w' c) =
                  (case map_of (toMap v) (m_name (heap w c)) of None \<Rightarrow> Null | Some x \<Rightarrow> x)) \<and>
             (eq (m_value (heap w c))
                 (case map_of (toMap v) (m_name (heap w c)) of None \<Rightarrow> Null | Some x \<Rightarrow> x) \<longrightarrow>
                heap w' c = heap w c))))"
proof (intro conjI impI)
  assume "eq (m_value (heap w d)) v"
  then show "\<forall>k. setValue eq (Suc k) w d v = Inr w"
    using assms(2) by (simp add: setValue.simps)
next
  assume ne: "\<not> eq (m_value (heap w d)) v"
  note wf = assms(1)
  let ?w0 = "set_value d v w"
  let ?cs = "m_children (heap w d)"
  let ?vm = "toMap v"
  let ?ps = "map (\<lambda>c. (c, case map_of ?vm (m_name (heap w c)) of None \<Rightarrow> Null | Some x \<Rightarrow> x)) ?cs"
  have wf0: "wf_tree depth B ?w0" using wf_tree_set_value [OF wf] .
  have na: "\<not> ancestor w d d" using not_own_ancestor [OF wf] .
  have ps: "map (\<lambda>c. (c, map_value ?vm (m_name (heap ?w0 c)))) ?cs = ?ps"
    by (simp add: map_value_def)
  have E: "\<exists>k w'. setValue eq k w1 c y = Inr w' \<and>
      (\<forall>a. a \<noteq> c \<and> \<not> ancestor w1 c a \<and> \<not> ancestor w1 a c \<longrightarrow> heap w' a = heap w1 a)"
    if "wf_tree depth B w1" for c w1 y
    using setValue_returns [OF that, of eq c y] by blast
  have "\<exists>k w'. QtDictProperty_setValue_loop eq k ?w0 ?vm ?cs = Inr w' \<and>
      setValue_each eq k ?w0 (map (\<lambda>c. (c, map_value ?vm (m_name (heap ?w0 c)))) ?cs) = Inr w' \<and>
      same_shape ?w0 w' \<and>
      (\<forall>a. a \<noteq> d \<and> \<not> ancestor ?w0 d a \<and> \<not> ancestor ?w0 a d \<longrightarrow> heap w' a = heap ?w0 a)"
    by (rule dict_phase_returns [OF wf0]) (use E in simp_all)
  then obtain k1 w1 where lp: "QtDictProperty_setValue_loop eq k1 ?w0 ?vm ?cs = Inr w1"
    and ea: "setValue_each eq k1 ?w0 ?ps = Inr w1"
    and sh1: "same_shape ?w0 w1"
    unfolding ps by blast
  have sh01: "same_shape w w1" using same_shape_via_set_value [OF sh1] .
  have wf1: "wf_tree depth B w1" using same_shape_wf_tree [OF sh01 wf] .
  have an1: "\<And>a c. ancestor w1 a c = ancestor w a c"
    using same_shape_ancestor [OF sh01] .
  obtain k2 w' evs2 where sg: "signalValueChange eq k2 w1 d d = Inr w'"
    and sh2: "same_shape w1 w'"
    and ev2: "events w' = events w1 @ ValueChange d d # evs2"
    and se2: "\<forall>e \<in> set evs2. ancestor w (sender e) d"
    using signalValueChange_rises [OF wf1, of eq d d] unfolding an1 by blast
  let ?k = "max k1 k2"
  have 1: "setValue_each eq ?k ?w0 ?ps = Inr w1"
    using setValue_each_mono [OF _ ea, of ?k] by simp
  have 2: "signalValueChange eq ?k w1 d d = Inr w'"
    using fuel_mono(4) [OF _ sg, of ?k] by simp
  have "QtDictProperty_setValue_loop eq ?k ?w0 ?vm ?cs = Inr w1"
    using fuel_mono(3) [OF _ lp, of ?k] by simp
  then have 3: "setValue eq (Suc ?k) w d v = Inr w'"
    using ne assms(2) 2 by (simp add: setValue.simps Let_def)
  have 4: "same_shape w w'" using same_shape_trans [OF sh01 sh2] .
  have 5: "\<forall>e \<in> set evs2. sender e \<noteq> d" using se2 na by auto
  from 1 2 3 4 ev2 5
  show "\<exists>k w1 w' evs.
          setValue_each eq k ?w0 ?ps = Inr w1 \<and>
          signalValueChange eq k w1 d d = Inr w' \<and>
          setValue eq (Suc k) w d v = Inr w' \<and>
          same_shape w w' \<and>
          events w' = events w1 @ ValueChange d d # evs \<and>
          (\<forall>e \<in> set evs. sender e \<noteq> d)"
    by blast
next
  let ?en = "\<lambda>c. case map_of (toMap v) (m_name (heap w c)) of None \<Rightarrow> Null | Some x \<Rightarrow> x"
  assume "\<not> eq (m_value (heap w d)) v \<and>
     (\<forall>c \<in> set (m_children (heap w d)). self_equal eq (?en c))"
  then have ne: "\<not> eq (m_value (heap w d)) v"
    and sv: "\<And>c. c \<in> set (m_children (heap w d)) \<Longrightarrow> self_equal eq (?en c)"
    by simp_all
  note wf = assms(1)
  let ?w0 = "set_value d v w"
  let ?cs = "m_children (heap w d)"
  let ?vm = "toMap v"
  let ?ps = "map (\<lambda>c. (c, ?en c)) ?cs"
  have wf0: "wf_tree depth B ?w0" using wf_tree_set_value [OF wf] .
  have an0: "\<And>a c. ancestor ?w0 a c = ancestor w a c" by simp
  have na: "\<not> ancestor w d d" using not_own_ancestor [OF wf] .
  have en: "\<And>c. map_value ?vm (m_name (heap ?w0 c)) = ?en c"
    by (simp add: map_value_def)
  have "\<exists>k w' evs. QtDictProperty_setValue_loop eq k ?w0 ?vm ?cs = Inr w' \<and>
      setValue_each eq k ?w0 (map (\<lambda>c. (c, map_value ?vm (m_name (heap ?w0 c)))) ?cs) = Inr w' \<and>
      same_shape ?w0 w' \<and> events w' = events ?w0 @ evs \<and>
      (\<forall>e \<in> set evs. ancestor ?w0 d (sender e)) \<and>
      (\<forall>a. \<not> ancestor ?w0 d a \<longrightarrow> heap w' a = heap ?w0 a) \<and>
      (\<forall>c \<in> set ?cs.
         (cls (heap ?w0 c) \<noteq> QtGroupProperty \<and>
          \<not> eq (m_value (heap ?w0 c)) (map_value ?vm (m_name (heap ?w0 c))) \<longrightarrow>
            m_value (heap w' c) = map_value ?vm (m_name (heap ?w0 c))) \<and>
         (eq (m_value (heap ?w0 c)) (map_value ?vm (m_name (heap ?w0 c))) \<or>
          cls (heap ?w0 c) = QtGroupProperty \<longrightarrow>
            heap w' c = heap ?w0 c \<and> (\<forall>e \<in> set evs. sender e \<noteq> c)))"
  proof (rule dict_phase [OF wf0])
    show "cls (heap ?w0 d) = QtDictProperty" using assms(2) by simp
    show "?cs = m_children (heap ?w0 d)" by simp
    show "?vm = toMap (m_value (heap ?w0 d))" by simp
    show "self_equal eq (map_value ?vm (m_name (heap ?w0 c)))" if "c \<in> set ?cs" for c
      using sv [OF that] by (simp only: en)
    show "\<exists>k w' evs. setValue eq k w1 c y = Inr w' \<and> sinks eq w1 c y w' evs"
      if "wf_tree depth B w1" and "expects w1 c y" and "self_equal eq y" for c w1 y
      using setValue_sinks [OF that] .
  qed
  then obtain k1 w1 evs1 where lp: "QtDictProperty_setValue_loop eq k1 ?w0 ?vm ?cs = Inr w1"
    and ea: "setValue_each eq k1 ?w0 ?ps = Inr w1"
    and sh1: "same_shape ?w0 w1" and ev1: "events w1 = events ?w0 @ evs1"
    and se1: "\<forall>e \<in> set evs1. ancestor w d (sender e)"
    and fr1: "\<forall>a. \<not> ancestor w d a \<longrightarrow> heap w1 a = heap ?w0 a"
    and ch1: "\<forall>c \<in> set ?cs.
         (cls (heap ?w0 c) \<noteq> QtGroupProperty \<and> \<not> eq (m_value (heap ?w0 c)) (?en c) \<longrightarrow>
            m_value (heap w1 c) = ?en c) \<and>
         (eq (m_value (heap ?w0 c)) (?en c) \<or> cls (heap ?w0 c) = QtGroupProperty \<longrightarrow>
            heap w1 c = heap ?w0 c \<and> (\<forall>e \<in> set evs1. sender e \<noteq> c))"
    unfolding an0 en by blast
  have sh01: "same_shape w w1" using same_shape_via_set_value [OF sh1] .
  have wf1: "wf_tree depth B w1" using same_shape_wf_tree [OF sh01 wf] .
  have an1: "\<And>a c. ancestor w1 a c = ancestor w a c"
    using same_shape_ancestor [OF sh01] .
  obtain k2 w' evs2 where sg: "signalValueChange eq k2 w1 d d = Inr w'"
    and sh2: "same_shape w1 w'"
    and ev2: "events w' = events w1 @ ValueChange d d # evs2"
    and se2: "\<forall>e \<in> set evs2. ancestor w (sender e) d"
    and fr2: "\<forall>a. \<not> ancestor w a d \<longrightarrow> heap w' a = heap w1 a"
    using signalValueChange_rises [OF wf1, of eq d d] unfolding an1 by blast
  let ?k = "max k1 k2"
  have 1: "setValue_each eq ?k ?w0 ?ps = Inr w1"
    using setValue_each_mono [OF _ ea, of ?k] by simp
  have 2: "signalValueChange eq ?k w1 d d = Inr w'"
    using fuel_mono(4) [OF _ sg, of ?k] by simp
  have "QtDictProperty_setValue_loop eq ?k ?w0 ?vm ?cs = Inr w1"
    using fuel_mono(3) [OF _ lp, of ?k] by simp
  then have 3: "setValue eq (Suc ?k) w d v = Inr w'"
    using ne assms(2) 2 by (simp add: setValue.simps Let_def)
  have 4: "same_shape w w'" using same_shape_trans [OF sh01 sh2] .
  have 5: "m_value (heap w' d) = v" using fr1 fr2 na by simp
  have 6: "events w' = events w @ (evs1 @ ValueChange d d # evs2)"
    using ev1 ev2 by simp
  have "\<forall>e \<in> set evs1. sender e \<noteq> d" using se1 na by auto
  moreover have "\<forall>e \<in> set evs2. sender e \<noteq> d" using se2 na by auto
  ultimately have 7: "filter (\<lambda>e. sender e = d) (evs1 @ ValueChange d d # evs2) = [ValueChange d d]"
    by (simp add: filter_empty_conv)
  have 8: "\<forall>c \<in> set ?cs.
       (cls (heap w c) \<noteq> QtGroupProperty \<and> \<not> eq (m_value (heap w c)) (?en c) \<longrightarrow>
          m_value (heap w' c) = ?en c) \<and>
       (eq (m_value (heap w c)) (?en c) \<longrightarrow> heap w' c = heap w c)"
  proof (intro ballI)
    fix c assume c: "c \<in> set ?cs"
    note C = child_not_ancestor [OF wf c]
    have k: "heap w' c = heap w1 c" using fr2 C(1) by simp
    have 0: "heap ?w0 c = heap w c" using C(2) by simp
    show "(cls (heap w c) \<noteq> QtGroupProperty \<and> \<not> eq (m_value (heap w c)) (?en c) \<longrightarrow>
          m_value (heap w' c) = ?en c) \<and>
       (eq (m_value (heap w c)) (?en c) \<longrightarrow> heap w' c = heap w c)"
      using ch1 c k 0 by auto
  qed
  from 1 2 3 4 5 6 7 8
  show "\<exists>k w1 w' evs.
          setValue_each eq k ?w0 ?ps = Inr w1 \<and>
          signalValueChange eq k w1 d d = Inr w' \<and>
          setValue eq (Suc k) w d v = Inr w' \<and>
          same_shape w w' \<and> m_value (heap w' d) = v \<and>
          events w' = events w @ evs \<and>
          filter (\<lambda>e. sender e = d) evs = [ValueChange d d] \<and>
          (\<forall>c \<in> set ?cs.
             (cls (heap w c) \<noteq> QtGroupProperty \<and> \<not> eq (m_value (heap w c)) (?en c) \<longrightarrow>
                m_value (heap w' c) = ?en c) \<and>
             (eq (m_value (heap w c)) (?en c) \<longrightarrow> heap w' c = heap w c))"
    by blast
qed

theorem setValue_dict_property_witness:
  "wf_tree example_depth 1 example_dict \<and> cls (heap example_dict 0) = QtDictProperty \<and>
   \<not> example_equals (m_value (heap example_dict 0)) (VMap [(''a'', VInt 5)]) \<and>
   self_equal example_equals (VInt 5) \<and> self_equal example_equals Null \<and>
   (\<exists>k w' evs. setValue example_equals (Suc k) example_dict 0 (VMap [(''a'', VInt 5)]) = Inr w' \<and>
      m_value (heap w' 0) = VMap [(''a'', VInt 5)] \<and>
      m_value (heap w' 1) = VInt 5 \<and> m_value (heap w' 2) = Null \<and>
      events w' = events example_dict @ evs \<and>
      filter (\<lambda>e. sender e = 0) evs = [ValueChange 0 0])"
proof -
  let ?v = "VMap [(''a'', VInt 5)]"
  have c: "cls (heap example_dict 0) = QtDictProperty"
    and ne: "\<not> example_equals (m_value (heap example_dict 0)) ?v"
    by (simp_all add: example_dict_def node_def)
  have s5: "self_equal example_equals (VInt 5)" and s0: "self_equal example_equals Null"
    by (simp_all add: self_equal_def)
  have sv: "\<forall>c \<in> set (m_children (heap example_dict 0)).
      self_equal example_equals
        (case map_of (toMap ?v) (m_name (heap example_dict c)) of None \<Rightarrow> Null | Some x \<Rightarrow> x)"
    using s5 s0 by (simp add: example_dict_def node_def)
  from setValue_dict_property [OF wf_tree_example_dict c, of example_equals ?v] ne sv
  obtain k w' evs where s: "setValue example_equals (Suc k) example_dict 0 ?v = Inr w'"
    and v: "m_value (heap w' 0) = ?v"
    and e: "events w' = events example_dict @ evs"
    and f: "filter (\<lambda>e. sender e = 0) evs = [ValueChange 0 0]"
    and ch: "\<forall>c \<in> set (m_children (heap example_dict 0)).
             (cls (heap example_dict c) \<noteq> QtGroupProperty \<and>
              \<not> example_equals (m_value (heap example_dict c))
                   (case map_of (toMap ?v) (m_name (heap example_dict c)) of
                      None \<Rightarrow> Null | Some x \<Rightarrow> x) \<longrightarrow>
                m_value (heap w' c) =
                  (case map_of (toMap ?v) (m_name (heap example_dict c)) of
                     None \<Rightarrow> Null | Some x \<Rightarrow> x)) \<and>
             (example_equals (m_value (heap example_dict c))
                 (case map_of (toMap ?v) (m_name (heap example_dict c)) of
                    None \<Rightarrow> Null | Some x \<Rightarrow> x) \<longrightarrow>
                heap w' c = heap example_dict c)"
    by blast
  have "m_value (heap w' 1) = VInt 5 \<and> m_value (heap w' 2) = Null"
    using ch by (simp add: example_dict_def node_def)
  then show ?thesis
    using wf_tree_example_dict c ne s5 s0 s v e f by blast
qed

lemma wf_tree_example_single_dict: "wf_tree example_depth 1 example_single_dict"
  by (auto simp: wf_tree_def tree_inv_def linked_def wired_def layered_def receivers_def
        example_single_dict_def node_def example_depth_def)

text \<open>
  The dictionary of \<open>example_single_dict\<close> holds the null value and is given the mapping
  that holds NaN under \<open>a\<close>. Its child \<open>a\<close> takes NaN and notifies; the slot of the
  dictionary compares the value of the child, NaN, with the entry it holds, NaN, finds them
  different, and the dictionary notifies; after the loop it notifies again.
\<close>

theorem setValue_dict_property_counterexample:
  "wf_tree example_depth 1 example_single_dict \<and>
   cls (heap example_single_dict 0) = QtDictProperty \<and>
   m_children (heap example_single_dict 0) = [1] \<and>
   \<not> example_equals (m_value (heap example_single_dict 0)) (VMap [(''a'', VNaN)]) \<and>
   map_sum id events
     (setValue example_equals 8 example_single_dict 0 (VMap [(''a'', VNaN)])) =
     Inr [ValueChange 1 1, ValueChange 0 0, ValueChange 0 0]"
proof -
  have "cls (heap example_single_dict 0) = QtDictProperty"
    and "m_children (heap example_single_dict 0) = [1]"
    and "\<not> example_equals (m_value (heap example_single_dict 0)) (VMap [(''a'', VNaN)])"
    by (simp_all add: example_single_dict_def node_def)
  moreover have
    "map_sum id events
       (setValue example_equals 8 example_single_dict 0 (VMap [(''a'', VNaN)])) =
       Inr [ValueChange 1 1, ValueChange 0 0, ValueChange 0 0]"
    by code_simp
  ultimately show ?thesis using wf_tree_example_single_dict by simp
qed

subsection \<open>Rendering a list\<close>

lemma getValueString_fuel_Suc:
  "getValueString k w this = Inr s \<Longrightarrow> getValueString (Suc k) w this = Inr s"
  "QtListProperty_getValueString_loop k w cs acc = Inr s \<Longrightarrow>
     QtListProperty_getValueString_loop (Suc k) w cs acc = Inr s"
proof (induction k arbitrary: this s cs acc)
  case 0
  {
    case 1 then show ?case by (simp add: getValueString.simps)
  next
    case 2 then show ?case by (simp add: QtListProperty_getValueString_loop.simps)
  }
next
  case (Suc k)
  {
    case 1
    then show ?case
      apply (subst getValueString.simps(2))
      apply (subst (asm) getValueString.simps(2))
      apply (fastforce split: sum.splits if_splits dest: Suc.IH)
      done
  next
    case 2
    then show ?case
      by (cases cs)
        (fastforce split: sum.splits simp: QtListProperty_getValueString_loop.simps
          dest: Suc.IH)+
  }
qed

lemma getValueString_fuel_mono:
  assumes "k \<le> k'"
  shows "getValueString k w this = Inr s \<Longrightarrow> getValueString k' w this = Inr s"
    and "QtListProperty_getValueString_loop k w cs acc = Inr s \<Longrightarrow>
      QtListProperty_getValueString_loop k' w cs acc = Inr s"
  using assms by (induction rule: dec_induct) (auto intro: getValueString_fuel_Suc)

lemma getValueString_loop_concat:
  "map (getValueString k w) cs = map Inr ss \<Longrightarrow>
   QtListProperty_getValueString_loop (Suc (k + length cs)) w cs acc =
     Inr (acc @ concat (map (\<lambda>s. s @ '', '') ss))"
proof (induction cs arbitrary: ss acc)
  case Nil
  then show ?case by (simp add: QtListProperty_getValueString_loop.simps)
next
  case (Cons c cs)
  then obtain s ss' where ss: "ss = s # ss'" and c: "getValueString k w c = Inr s"
    and r: "map (getValueString k w) cs = map Inr ss'"
    by (cases ss) auto
  have 1: "getValueString (Suc (k + length cs)) w c = Inr s"
    using getValueString_fuel_mono(1) [OF _ c, of "Suc (k + length cs)"] by simp
  show ?case
    using 1 Cons.IH [OF r, of "(acc @ s) @ '', ''"]
    by (simp add: QtListProperty_getValueString_loop.simps ss)
qed

lemma getValueString_common_fuel:
  "(\<And>c. c \<in> set cs \<Longrightarrow> \<exists>k s. getValueString k w c = Inr s) \<Longrightarrow>
   \<exists>k ss. map (getValueString k w) cs = map Inr ss"
proof (induction cs)
  case Nil
  then show ?case by simp
next
  case (Cons c cs)
  then obtain k1 ss where 1: "map (getValueString k1 w) cs = map Inr ss" by auto
  obtain k2 s where 2: "getValueString k2 w c = Inr s" using Cons.prems [of c] by auto
  have "\<forall>c' \<in> set cs. getValueString (max k1 k2) w c' = getValueString k1 w c'"
  proof
    fix c' assume "c' \<in> set cs"
    then obtain s' where "getValueString k1 w c' = Inr s'"
      using 1 by (metis (no_types, lifting) in_set_conv_nth length_map nth_map)
    then show "getValueString (max k1 k2) w c' = getValueString k1 w c'"
      using getValueString_fuel_mono(1) [of k1 "max k1 k2" w c' s'] by simp
  qed
  then have "map (getValueString (max k1 k2) w) cs = map Inr ss" using 1 by (simp cong: map_cong)
  moreover have "getValueString (max k1 k2) w c = Inr s"
    using getValueString_fuel_mono(1) [OF _ 2, of "max k1 k2"] by simp
  ultimately have "map (getValueString (max k1 k2) w) (c # cs) = map Inr (s # ss)" by simp
  then show ?case by blast
qed

text \<open>In a forest every rendering returns.\<close>

lemma getValueString_returns:
  assumes "layered depth B w"
  shows "\<exists>k s. getValueString k w n = Inr s"
  using assms
proof (induction "B - depth n" arbitrary: n rule: less_induct)
  case less
  show ?case
  proof (cases "cls (heap w n) = QtListProperty")
    case False
    then have "getValueString (Suc 0) w n = Inr (toString (m_value (heap w n)))"
      by (simp add: getValueString.simps)
    then show ?thesis by blast
  next
    case True
    have each: "\<exists>k s. getValueString k w c = Inr s" if "c \<in> set (m_children (heap w n))" for c
    proof -
      have "depth n < depth c \<and> depth c \<le> B"
        using less.prems that by (auto simp: layered_def)
      then have "B - depth c < B - depth n" by arith
      then show ?thesis using less.hyps less.prems by blast
    qed
    obtain k ss where "map (getValueString k w) (m_children (heap w n)) = map Inr ss"
      using getValueString_common_fuel [of "m_children (heap w n)" w] each by blast
    then have "getValueString (Suc (Suc (k + length (m_children (heap w n))))) w n =
        Inr ((''('' @ concat (map (\<lambda>s. s @ '', '') ss)) @ '')'')"
      using True getValueString_loop_concat [of k w _ ss "''(''"]
      by (simp add: getValueString.simps)
    then show ?thesis by blast
  qed
qed

text \<open>
  Claim C9. For a list \<open>l\<close> with children \<open>cs\<close>: whenever the children render to the
  strings \<open>ss\<close>, in order, \<open>getValueString\<close> of the list returns \<open>(\<close>, then each of
  the strings followed by a comma and a space, then \<open>)\<close>, so the separator also follows the
  last child. In a forest the children do render. With no children the result is \<open>()\<close>.
\<close>

theorem getValueString_list:
  assumes "cls (heap w l) = QtListProperty" and "cs = m_children (heap w l)"
  shows "(\<forall>k ss. map (getValueString k w) cs = map Inr ss \<longrightarrow>
            getValueString (Suc (Suc (k + length cs))) w l =
              Inr (''('' @ concat (map (\<lambda>s. s @ '', '') ss) @ '')'')) \<and>
         (layered depth B w \<longrightarrow> (\<exists>k ss. map (getValueString k w) cs = map Inr ss)) \<and>
         (cs = [] \<longrightarrow> getValueString (Suc (Suc 0)) w l = Inr ''()'')"
proof (intro conjI allI impI)
  fix k ss assume "map (getValueString k w) cs = map Inr ss"
  then show "getValueString (Suc (Suc (k + length cs))) w l =
      Inr (''('' @ concat (map (\<lambda>s. s @ '', '') ss) @ '')'')"
    using assms getValueString_loop_concat [of k w cs ss "''(''"]
    by (simp add: getValueString.simps)
next
  assume lay: "layered depth B w"
  show "\<exists>k ss. map (getValueString k w) cs = map Inr ss"
    using getValueString_common_fuel [of cs w] getValueString_returns [OF lay] by blast
next
  assume "cs = []"
  then show "getValueString (Suc (Suc 0)) w l = Inr ''()''"
    using assms
    by (simp add: getValueString.simps QtListProperty_getValueString_loop.simps)
qed

lemma toString_small: "toString (VInt 1) = ''1''" "toString (VInt 2) = ''2''"
  by (simp_all add: int_toString_def nat_toString.simps digit_char_def)


lemma layered_example_list: "layered example_depth 1 example_list"
  using wf_tree_example_list by (simp add: wf_tree_def)

theorem getValueString_list_witness:
  "cls (heap example_list 0) = QtListProperty \<and> layered example_depth 1 example_list \<and>
   map (getValueString 1 example_list) (m_children (heap example_list 0)) = map Inr [''1'', ''2''] \<and>
   getValueString 5 example_list 0 = Inr ''(1, 2, )''"
proof -
  have c: "cls (heap example_list 0) = QtListProperty"
    and cs: "[1, 2] = m_children (heap example_list 0)"
    by (simp_all add: example_list_def node_def)
  have m: "map (getValueString 1 example_list) [1, 2] = map Inr [''1'', ''2'']"
    using toString_small
    by (simp add: getValueString.simps example_list_def node_def)
  have "getValueString (Suc (Suc (1 + length [1, 2 :: addr]))) example_list 0 =
      Inr (''('' @ concat (map (\<lambda>s. s @ '', '') [''1'', ''2'']) @ '')'')"
    using getValueString_list [OF c cs, of example_depth 1] m by blast
  then have "getValueString 5 example_list 0 = Inr ''(1, 2, )''"
    by (simp add: eval_nat_numeral)
  then show ?thesis using c layered_example_list m cs [symmetric] by simp
qed

subsection \<open>Looking a name up in a group\<close>

lemma findChild_loop_step:
  "QtGroupProperty_findChild_loop TG (Suc k) w (c # cs) x =
     (if x = m_name (heap w c) then Inr (Some c)
      else if m_type (heap w c) = TG then
        (case findChild TG k w c x of
           Inl e \<Rightarrow> Inl e
         | Inr None \<Rightarrow> QtGroupProperty_findChild_loop TG k w cs x
         | Inr (Some r) \<Rightarrow> Inr (Some r))
      else QtGroupProperty_findChild_loop TG k w cs x)"
  by (simp add: QtGroupProperty_findChild_loop.simps split: sum.splits option.splits)

lemma findChild_fuel_Suc:
  "findChild TG k w this x = Inr r \<Longrightarrow> findChild TG (Suc k) w this x = Inr r"
  "QtGroupProperty_findChild_loop TG k w cs x = Inr r \<Longrightarrow>
     QtGroupProperty_findChild_loop TG (Suc k) w cs x = Inr r"
proof (induction k arbitrary: this r cs)
  case 0
  {
    case 1 then show ?case by (simp add: findChild.simps)
  next
    case 2 then show ?case by (simp add: QtGroupProperty_findChild_loop.simps)
  }
next
  case (Suc k)
  {
    case 1
    then show ?case
      apply (subst findChild.simps(2))
      apply (subst (asm) findChild.simps(2))
      apply (fastforce split: sum.splits if_splits dest: Suc.IH)
      done
  next
    case 2
    show ?case
    proof (cases cs)
      case Nil
      then show ?thesis using "2" by (simp add: QtGroupProperty_findChild_loop.simps)
    next
      case (Cons c cs')
      note st = "2" [unfolded Cons findChild_loop_step]
      show ?thesis
      proof (cases "x \<noteq> m_name (heap w c) \<and> m_type (heap w c) = TG")
        case False
        then show ?thesis
          using st Suc.IH(2) by (auto simp: Cons findChild_loop_step split: if_splits)
      next
        case True
        show ?thesis
        proof (cases "findChild TG k w c x")
          case (Inl e)
          then show ?thesis using st True by simp
        next
          case (Inr ro)
          have "findChild TG (Suc k) w c x = Inr ro" using Suc.IH(1) [OF Inr] .
          then show ?thesis
            using st True Inr Suc.IH(2)
            by (cases ro) (auto simp: Cons findChild_loop_step)
        qed
      qed
    qed
  }
qed

lemma findChild_fuel_mono:
  assumes "k \<le> k'"
  shows "findChild TG k w this x = Inr r \<Longrightarrow> findChild TG k' w this x = Inr r"
    and "QtGroupProperty_findChild_loop TG k w cs x = Inr r \<Longrightarrow>
      QtGroupProperty_findChild_loop TG k' w cs x = Inr r"
  using assms by (induction rule: dec_induct) (auto intro: findChild_fuel_Suc)

lemma find_append':
  "find P (xs @ ys) = (case find P xs of None \<Rightarrow> find P ys | Some a \<Rightarrow> Some a)"
  by (induction xs) auto

lemma group_walk_find:
  assumes "consistent_types TG w"
  shows "group_walk TG w cs ns \<Longrightarrow>
    \<exists>k. QtGroupProperty_findChild_loop TG k w cs x = Inr (find (\<lambda>a. m_name (heap w a) = x) ns)"
proof (induction rule: group_walk.induct)
  case nil
  have "QtGroupProperty_findChild_loop TG (Suc 0) w [] x = Inr None"
    by (simp add: QtGroupProperty_findChild_loop.simps)
  then show ?case by auto
next
  case (group c ms cs ns)
  let ?P = "\<lambda>a. m_name (heap w a) = x"
  obtain k1 where 1: "QtGroupProperty_findChild_loop TG k1 w (m_children (heap w c)) x = Inr (find ?P ms)"
    using group.IH(1) by blast
  obtain k2 where 2: "QtGroupProperty_findChild_loop TG k2 w cs x = Inr (find ?P ns)"
    using group.IH(2) by blast
  have g: "cls (heap w c) = QtGroupProperty"
    using assms group.hyps(1) by (simp add: consistent_types_def)
  let ?k = "Suc (max k1 k2)"
  have 3: "findChild TG ?k w c x = Inr (find ?P ms)"
    using findChild_fuel_mono(2) [OF _ 1, of "max k1 k2"] g by (simp add: findChild.simps)
  have 4: "QtGroupProperty_findChild_loop TG ?k w cs x = Inr (find ?P ns)"
    using findChild_fuel_mono(2) [OF _ 2, of ?k] by simp
  have "QtGroupProperty_findChild_loop TG (Suc ?k) w (c # cs) x = Inr (find ?P (c # ms @ ns))"
    using 3 4 group.hyps(1)
    by (auto simp: QtGroupProperty_findChild_loop.simps find_append' split: option.splits)
  then show ?case by blast
next
  case (other c cs ns)
  let ?P = "\<lambda>a. m_name (heap w a) = x"
  obtain k2 where 2: "QtGroupProperty_findChild_loop TG k2 w cs x = Inr (find ?P ns)"
    using other.IH by blast
  have "QtGroupProperty_findChild_loop TG (Suc k2) w (c # cs) x = Inr (find ?P (c # ns))"
    using 2 other.hyps(1)
    by (auto simp: QtGroupProperty_findChild_loop.simps)
  then show ?case by blast
qed

lemma group_reach_mono:
  "group_reach TG w cs a \<Longrightarrow> set cs \<subseteq> set cs' \<Longrightarrow> group_reach TG w cs' a"
  by (induction rule: group_reach.induct) (auto intro: group_reach.intros)

lemma group_reach_under:
  "group_reach TG w (m_children (heap w c)) a \<Longrightarrow> m_type (heap w c) = TG \<Longrightarrow> c \<in> set cs \<Longrightarrow>
   group_reach TG w cs a"
  by (induction rule: group_reach.induct) (auto intro: group_reach.intros)

lemma group_walk_reach:
  "group_walk TG w cs ns \<Longrightarrow> set ns = {a. group_reach TG w cs a}"
proof (induction rule: group_walk.induct)
  case nil
  have "\<not> group_reach TG w [] a" for a
  proof
    assume "group_reach TG w [] a"
    then show False by (induction rule: group_reach.induct) auto
  qed
  then show ?case by simp
next
  case (group c ms cs ns)
  have "group_reach TG w (c # cs) a \<Longrightarrow> a \<in> set (c # ms @ ns)" for a
  proof (induction rule: group_reach.induct)
    case (root a)
    then show ?case using group.IH(2) by (auto intro: group_reach.root)
  next
    case (deeper b a)
    then show ?case
      using group.IH by (auto intro: group_reach.intros)
  qed
  moreover have "group_reach TG w (c # cs) a" if mem: "a \<in> set (c # ms @ ns)" for a
  proof -
    consider "a = c" | "a \<in> set ms" | "a \<in> set ns" using mem by auto
    then show ?thesis
    proof cases
      case 1
      then show ?thesis by (simp add: group_reach.root)
    next
      case 2
      then have "group_reach TG w (m_children (heap w c)) a" using group.IH(1) by simp
      then show ?thesis using group_reach_under [OF _ group.hyps(1), of a "c # cs"] by simp
    next
      case 3
      then have "group_reach TG w cs a" using group.IH(2) by simp
      then show ?thesis using group_reach_mono [of TG w cs a "c # cs"] by auto
    qed
  qed
  ultimately show ?case by blast
next
  case (other c cs ns)
  have "group_reach TG w (c # cs) a \<Longrightarrow> a \<in> set (c # ns)" for a
  proof (induction rule: group_reach.induct)
    case (root a)
    then show ?case using other.IH by (auto intro: group_reach.root)
  next
    case (deeper b a)
    then show ?case
      using other.IH other.hyps(1) by (auto intro: group_reach.intros)
  qed
  moreover have "group_reach TG w (c # cs) a" if "a \<in> set (c # ns)" for a
  proof (cases "a = c")
    case True
    then show ?thesis by (simp add: group_reach.root)
  next
    case False
    then have "group_reach TG w cs a" using that other.IH by simp
    then show ?thesis using group_reach_mono [of TG w cs a "c # cs"] by auto
  qed
  ultimately show ?case by blast
qed

text \<open>In a forest the walk exists.\<close>

lemma group_walk_exists:
  assumes "layered depth B w"
  shows "\<exists>ms. group_walk TG w (m_children (heap w c)) ms"
  using assms
proof (induction "B - depth c" arbitrary: c rule: less_induct)
  case less
  have each: "\<exists>ms. group_walk TG w (m_children (heap w c')) ms"
    if "c' \<in> set (m_children (heap w c))" for c'
  proof -
    have "depth c < depth c' \<and> depth c' \<le> B"
      using less.prems that by (auto simp: layered_def)
    then have "B - depth c' < B - depth c" by arith
    then show ?thesis using less.hyps less.prems by blast
  qed
  have "\<exists>ns. group_walk TG w cs ns" if "set cs \<subseteq> set (m_children (heap w c))" for cs
    using that
  proof (induction cs)
    case Nil
    show ?case by (auto intro: group_walk.nil)
  next
    case (Cons c' cs)
    then obtain ns where ns: "group_walk TG w cs ns" by auto
    obtain ms where ms: "group_walk TG w (m_children (heap w c')) ms"
      using each Cons.prems by auto
    show ?case
      using ns ms by (cases "m_type (heap w c') = TG") (auto intro: group_walk.intros)
  qed
  then show ?case by blast
qed


text \<open>
  Claim C6. Let \<open>g\<close> be a group, in a store where the type tags and the classes agree, and
  let \<open>ns\<close> be the walk of its children: in sequence order, each node before what is under
  it, going under a node only if it is a group. Then \<open>findChild x\<close> returns, and whenever it
  returns its result is the first node of \<open>ns\<close> named \<open>x\<close>, or \<open>NULL\<close> if there is none.
  The nodes of the walk are those reached by a path on which every node is a group; in
  a forest the walk exists, so \<open>x\<close> is found exactly when a node of that name is reached
  through groups only, and is not found when it lies under a node that is not a group.
\<close>

theorem findChild_group:
  assumes "consistent_types TG w" and "cls (heap w g) = QtGroupProperty"
  shows "(\<forall>ns. group_walk TG w (m_children (heap w g)) ns \<longrightarrow>
            (\<exists>k. findChild TG k w g x = Inr (find (\<lambda>a. m_name (heap w a) = x) ns)) \<and>
            (\<forall>k r. findChild TG k w g x = Inr r \<longrightarrow>
               r = find (\<lambda>a. m_name (heap w a) = x) ns) \<and>
            set ns = {a. group_reach TG w (m_children (heap w g)) a}) \<and>
         (layered depth B w \<longrightarrow>
            (\<exists>ns. group_walk TG w (m_children (heap w g)) ns) \<and>
            (\<exists>k r. findChild TG k w g x = Inr r \<and>
               (r = None \<longleftrightarrow>
                  \<not> (\<exists>a. group_reach TG w (m_children (heap w g)) a \<and> m_name (heap w a) = x)) \<and>
               (\<forall>a. r = Some a \<longrightarrow>
                  group_reach TG w (m_children (heap w g)) a \<and> m_name (heap w a) = x)))"
proof -
  let ?P = "\<lambda>a. m_name (heap w a) = x"
  let ?cs = "m_children (heap w g)"
  have A: "(\<exists>k. findChild TG k w g x = Inr (find ?P ns)) \<and>
           (\<forall>k r. findChild TG k w g x = Inr r \<longrightarrow> r = find ?P ns) \<and>
           set ns = {a. group_reach TG w ?cs a}"
    if walk: "group_walk TG w ?cs ns" for ns
  proof -
    obtain k where k: "QtGroupProperty_findChild_loop TG k w ?cs x = Inr (find ?P ns)"
      using group_walk_find [OF assms(1) walk] by blast
    then have f: "findChild TG (Suc k) w g x = Inr (find ?P ns)"
      using assms(2) by (simp add: findChild.simps)
    have "r = find ?P ns" if "findChild TG k' w g x = Inr r" for k' r
    proof -
      have "findChild TG (max k' (Suc k)) w g x = Inr r"
        using findChild_fuel_mono(1) [OF _ that, of "max k' (Suc k)"] by simp
      moreover have "findChild TG (max k' (Suc k)) w g x = Inr (find ?P ns)"
        using findChild_fuel_mono(1) [OF _ f, of "max k' (Suc k)"] by simp
      ultimately show ?thesis by simp
    qed
    then show ?thesis using f group_walk_reach [OF walk] by blast
  qed
  have B: "(\<exists>ns. group_walk TG w ?cs ns) \<and>
           (\<exists>k r. findChild TG k w g x = Inr r \<and>
              (r = None \<longleftrightarrow> \<not> (\<exists>a. group_reach TG w ?cs a \<and> m_name (heap w a) = x)) \<and>
              (\<forall>a. r = Some a \<longrightarrow> group_reach TG w ?cs a \<and> m_name (heap w a) = x))"
    if lay: "layered depth B w"
  proof -
    obtain ns where walk: "group_walk TG w ?cs ns"
      using group_walk_exists [OF lay] by blast
    obtain k where f: "findChild TG k w g x = Inr (find ?P ns)"
      and s: "set ns = {a. group_reach TG w ?cs a}"
      using A [OF walk] by blast
    have 1: "find ?P ns = None \<longleftrightarrow> \<not> (\<exists>a. group_reach TG w ?cs a \<and> m_name (heap w a) = x)"
      using s by (auto simp: find_None_iff)
    have 2: "\<forall>a. find ?P ns = Some a \<longrightarrow> group_reach TG w ?cs a \<and> m_name (heap w a) = x"
      using s by (auto simp: find_Some_iff)
    show ?thesis
    proof (intro conjI exI)
      show "group_walk TG w ?cs ns" by (rule walk)
      show "findChild TG k w g x = Inr (find ?P ns)" by (rule f)
      show "find ?P ns = None \<longleftrightarrow>
          \<not> (\<exists>a. group_reach TG w ?cs a \<and> m_name (heap w a) = x)" by (rule 1)
      show "\<forall>a. find ?P ns = Some a \<longrightarrow> group_reach TG w ?cs a \<and> m_name (heap w a) = x"
        by (rule 2)
    qed
  qed
  show ?thesis using A B by blast
qed

lemma layered_example_group: "layered example_group_depth 2 example_group"
  by (auto simp: layered_def example_group_def node_def example_group_depth_def)

lemma consistent_types_example_group: "consistent_types 3 example_group"
  by (auto simp: consistent_types_def example_group_def node_def)

lemma group_walk_example_group:
  "group_walk 3 example_group (m_children (heap example_group 0)) [1, 2, 3, 6, 4]"
proof -
  have c0: "m_children (heap example_group 0) = [1, 2, 4]"
    and c2: "m_children (heap example_group 2) = [3, 6]"
    and t1: "m_type (heap example_group 1) \<noteq> 3" and t2: "m_type (heap example_group 2) = 3"
    and t3: "m_type (heap example_group 3) \<noteq> 3" and t4: "m_type (heap example_group 4) \<noteq> 3"
    and t6: "m_type (heap example_group 6) \<noteq> 3"
    by (simp_all add: example_group_def node_def)
  have w4: "group_walk 3 example_group [4] [4]"
    using group_walk.other [OF t4 group_walk.nil] .
  have "group_walk 3 example_group [3, 6] [3, 6]"
    using group_walk.other [OF t3 group_walk.other [OF t6 group_walk.nil]] .
  then have w3: "group_walk 3 example_group (m_children (heap example_group 2)) [3, 6]"
    by (simp add: c2)
  have "group_walk 3 example_group [2, 4] (2 # [3, 6] @ [4])"
    using group_walk.group [OF t2 w3 w4] .
  then have "group_walk 3 example_group [1, 2, 4] [1, 2, 3, 6, 4]"
    using group_walk.other [OF t1] by simp
  then show ?thesis by (simp add: c0)
qed

theorem findChild_group_witness:
  "consistent_types 3 example_group \<and> cls (heap example_group 0) = QtGroupProperty \<and>
   layered example_group_depth 2 example_group \<and>
   group_walk 3 example_group (m_children (heap example_group 0)) [1, 2, 3, 6, 4] \<and>
   (\<exists>k. findChild 3 k example_group 0 ''x'' = Inr (Some 3)) \<and>
   (\<exists>k. findChild 3 k example_group 0 ''a'' = Inr (Some 1)) \<and>
   (\<exists>k. findChild 3 k example_group 0 ''y'' = Inr None)"
proof -
  have c: "cls (heap example_group 0) = QtGroupProperty"
    by (simp add: example_group_def node_def)
  note t = findChild_group [OF consistent_types_example_group c, of _ example_group_depth 2]
  have "\<exists>k. findChild 3 k example_group 0 ''x'' =
      Inr (find (\<lambda>a. m_name (heap example_group a) = ''x'') [1, 2, 3, 6, 4])"
    using t [of "''x''"] group_walk_example_group by blast
  then have x: "\<exists>k. findChild 3 k example_group 0 ''x'' = Inr (Some 3)"
    by (simp add: example_group_def node_def)
  have "\<exists>k. findChild 3 k example_group 0 ''a'' =
      Inr (find (\<lambda>a. m_name (heap example_group a) = ''a'') [1, 2, 3, 6, 4])"
    using t [of "''a''"] group_walk_example_group by blast
  then have a: "\<exists>k. findChild 3 k example_group 0 ''a'' = Inr (Some 1)"
    by (simp add: example_group_def node_def)
  have "\<exists>k. findChild 3 k example_group 0 ''y'' =
      Inr (find (\<lambda>a. m_name (heap example_group a) = ''y'') [1, 2, 3, 6, 4])"
    using t [of "''y''"] group_walk_example_group by blast
  then have y: "\<exists>k. findChild 3 k example_group 0 ''y'' = Inr None"
    by (simp add: example_group_def node_def)
  show ?thesis
    using consistent_types_example_group c layered_example_group group_walk_example_group x a y
    by blast
qed

subsection \<open>Setting a value by name in a group\<close>

lemma setChildValue_loop_step:
  "QtGroupProperty_setChildValue_loop eq TG (Suc k) w (c # cs) x v =
     (if m_type (heap w c) = TG then
        (case setChildValue eq TG k w c x v of
           Inl e \<Rightarrow> Inl e
         | Inr w1 \<Rightarrow> QtGroupProperty_setChildValue_loop eq TG k w1 cs x v)
      else if x = m_name (heap w c) then
        (case setValue eq k w c v of
           Inl e \<Rightarrow> Inl e
         | Inr w1 \<Rightarrow> QtGroupProperty_setChildValue_loop eq TG k w1 cs x v)
      else QtGroupProperty_setChildValue_loop eq TG k w cs x v)"
  by (simp add: QtGroupProperty_setChildValue_loop.simps)

lemma setChildValue_fuel_Suc:
  "setChildValue eq TG k w this x v = Inr w' \<Longrightarrow> setChildValue eq TG (Suc k) w this x v = Inr w'"
  "QtGroupProperty_setChildValue_loop eq TG k w cs x v = Inr w' \<Longrightarrow>
     QtGroupProperty_setChildValue_loop eq TG (Suc k) w cs x v = Inr w'"
proof (induction k arbitrary: w this w' cs)
  case 0
  {
    case 1 then show ?case by (simp add: setChildValue.simps)
  next
    case 2 then show ?case by (simp add: QtGroupProperty_setChildValue_loop.simps)
  }
next
  case (Suc k)
  {
    case 1
    show ?case
    proof (cases "cls (heap w this) = QtGroupProperty")
      case True
      then show ?thesis using "1" Suc.IH(2) by (simp add: setChildValue.simps)
    next
      case False
      show ?thesis
      proof (cases "findChild TG k w this x")
        case (Inl e)
        then show ?thesis using "1" False by (simp add: setChildValue.simps)
      next
        case (Inr r)
        have "findChild TG (Suc k) w this x = Inr r" using findChild_fuel_Suc(1) [OF Inr] .
        then show ?thesis
          using "1" False Inr fuel_Suc(1)
          by (cases r) (auto simp: setChildValue.simps)
      qed
    qed
  next
    case 2
    show ?case
    proof (cases cs)
      case Nil
      then show ?thesis using "2" by (simp add: QtGroupProperty_setChildValue_loop.simps)
    next
      case (Cons c cs')
      note st = "2" [unfolded Cons setChildValue_loop_step]
      show ?thesis
      proof (cases "m_type (heap w c) = TG")
        case True
        then obtain w1 where a: "setChildValue eq TG k w c x v = Inr w1"
          and b: "QtGroupProperty_setChildValue_loop eq TG k w1 cs' x v = Inr w'"
          using st by (auto split: sum.splits)
        show ?thesis
          using True Suc.IH(1) [OF a] Suc.IH(2) [OF b]
          by (simp add: Cons setChildValue_loop_step)
      next
        case False
        show ?thesis
        proof (cases "x = m_name (heap w c)")
          case True
          then obtain w1 where a: "setValue eq k w c v = Inr w1"
            and b: "QtGroupProperty_setChildValue_loop eq TG k w1 cs' x v = Inr w'"
            using st False by (auto split: sum.splits)
          show ?thesis
            using True False fuel_Suc(1) [OF a] Suc.IH(2) [OF b]
            by (simp add: Cons setChildValue_loop_step)
        next
          case nm: False
          then show ?thesis
            using st False Suc.IH(2) by (simp add: Cons setChildValue_loop_step)
        qed
      qed
    qed
  }
qed

lemma setChildValue_fuel_mono:
  assumes "k \<le> k'"
  shows "setChildValue eq TG k w this x v = Inr w' \<Longrightarrow> setChildValue eq TG k' w this x v = Inr w'"
    and "QtGroupProperty_setChildValue_loop eq TG k w cs x v = Inr w' \<Longrightarrow>
      QtGroupProperty_setChildValue_loop eq TG k' w cs x v = Inr w'"
  using assms by (induction rule: dec_induct) (auto intro: setChildValue_fuel_Suc)

lemma setValue_each_keeps_shape:
  "setValue_each eq k w ps = Inr w' \<Longrightarrow> same_shape w w'"
proof (induction ps arbitrary: w)
  case Nil
  then show ?case by simp
next
  case (Cons p ps)
  obtain c x where p: "p = (c, x)" by (cases p)
  from Cons.prems obtain w1 where 1: "setValue eq k w c x = Inr w1"
    and 2: "setValue_each eq k w1 ps = Inr w'"
    by (auto simp: p split: sum.splits)
  show ?case using same_shape_trans [OF keeps_shape(1) [OF 1] Cons.IH [OF 2]] .
qed

lemma setValue_each_append:
  "setValue_each eq k w (ps @ qs) = Inr w' \<longleftrightarrow>
     (\<exists>w1. setValue_each eq k w ps = Inr w1 \<and> setValue_each eq k w1 qs = Inr w')"
proof (induction ps arbitrary: w)
  case Nil
  then show ?case by simp
next
  case (Cons p ps)
  obtain c x where p: "p = (c, x)" by (cases p)
  show ?case using Cons.IH by (auto simp: p split: sum.splits)
qed

lemma same_shape_group_walk:
  assumes "same_shape w w'"
  shows "group_walk TG w cs ns \<Longrightarrow> group_walk TG w' cs ns"
  by (induction rule: group_walk.induct)
     (auto intro: group_walk.intros simp: same_shape_fields [OF assms])

lemma same_shape_sym: "same_shape w w' \<Longrightarrow> same_shape w' w"
  unfolding same_shape_def
  by (metis (no_types, lifting) property.surjective property.update_convs(4))

text \<open>
  \<open>setChildValue\<close> in a group does what calling \<open>setValue\<close> on the targets does: the nodes
  of the walk that are not groups and bear the name.
\<close>

lemma group_walk_setChildValue:
  assumes ct: "consistent_types TG w0"
  shows "group_walk TG w0 cs ns \<Longrightarrow> same_shape w0 w \<Longrightarrow>
    setValue_each eq k w (map (\<lambda>a. (a, v))
       (filter (\<lambda>a. m_type (heap w0 a) \<noteq> TG \<and> m_name (heap w0 a) = x) ns)) = Inr w' \<Longrightarrow>
    \<exists>k'. QtGroupProperty_setChildValue_loop eq TG k' w cs x v = Inr w'"
proof (induction arbitrary: w w' rule: group_walk.induct)
  case nil
  then have "QtGroupProperty_setChildValue_loop eq TG (Suc 0) w [] x v = Inr w'"
    by (simp add: QtGroupProperty_setChildValue_loop.simps)
  then show ?case by blast
next
  case (group c ms cs ns)
  let ?T = "\<lambda>a. m_type (heap w0 a) \<noteq> TG \<and> m_name (heap w0 a) = x"
  note sh = group.prems(1)
  from group.prems(2) group.hyps(1) obtain w1
    where 1: "setValue_each eq k w (map (\<lambda>a. (a, v)) (filter ?T ms)) = Inr w1"
      and 2: "setValue_each eq k w1 (map (\<lambda>a. (a, v)) (filter ?T ns)) = Inr w'"
    by (auto simp: setValue_each_append)
  have sh1: "same_shape w0 w1"
    using same_shape_trans [OF sh setValue_each_keeps_shape [OF 1]] .
  obtain k1 where 3: "QtGroupProperty_setChildValue_loop eq TG k1 w (m_children (heap w0 c)) x v = Inr w1"
    using group.IH(1) [OF sh 1] by blast
  obtain k2 where 4: "QtGroupProperty_setChildValue_loop eq TG k2 w1 cs x v = Inr w'"
    using group.IH(2) [OF sh1 2] by blast
  have g: "cls (heap w c) = QtGroupProperty" and t: "m_type (heap w c) = TG"
    and ch: "m_children (heap w c) = m_children (heap w0 c)"
    using ct group.hyps(1) by (simp_all add: consistent_types_def same_shape_fields [OF sh])
  let ?k = "Suc (max k1 k2)"
  have 5: "setChildValue eq TG ?k w c x v = Inr w1"
    using setChildValue_fuel_mono(2) [OF _ 3, of "max k1 k2"] g ch
    by (simp add: setChildValue.simps)
  have 6: "QtGroupProperty_setChildValue_loop eq TG ?k w1 cs x v = Inr w'"
    using setChildValue_fuel_mono(2) [OF _ 4, of ?k] by simp
  have "QtGroupProperty_setChildValue_loop eq TG (Suc ?k) w (c # cs) x v = Inr w'"
    using 5 6 t by (simp add: setChildValue_loop_step)
  then show ?case by blast
next
  case (other c cs ns)
  let ?T = "\<lambda>a. m_type (heap w0 a) \<noteq> TG \<and> m_name (heap w0 a) = x"
  note sh = other.prems(1)
  have t: "m_type (heap w c) \<noteq> TG" and nm: "m_name (heap w c) = m_name (heap w0 c)"
    using other.hyps(1) by (simp_all add: same_shape_fields [OF sh])
  show ?case
  proof (cases "x = m_name (heap w0 c)")
    case True
    from other.prems(2) other.hyps(1) True obtain w1
      where 1: "setValue eq k w c v = Inr w1"
        and 2: "setValue_each eq k w1 (map (\<lambda>a. (a, v)) (filter ?T ns)) = Inr w'"
      by (auto split: sum.splits)
    have sh1: "same_shape w0 w1" using same_shape_trans [OF sh keeps_shape(1) [OF 1]] .
    obtain k2 where 4: "QtGroupProperty_setChildValue_loop eq TG k2 w1 cs x v = Inr w'"
      using other.IH [OF sh1 2] by blast
    let ?k = "max k k2"
    have "setValue eq ?k w c v = Inr w1" using fuel_mono(1) [OF _ 1, of ?k] by simp
    moreover have "QtGroupProperty_setChildValue_loop eq TG ?k w1 cs x v = Inr w'"
      using setChildValue_fuel_mono(2) [OF _ 4, of ?k] by simp
    ultimately have "QtGroupProperty_setChildValue_loop eq TG (Suc ?k) w (c # cs) x v = Inr w'"
      using t nm True by (simp add: setChildValue_loop_step)
    then show ?thesis by blast
  next
    case False
    then have "setValue_each eq k w (map (\<lambda>a. (a, v)) (filter ?T ns)) = Inr w'"
      using other.prems(2) by simp
    then obtain k2 where 4: "QtGroupProperty_setChildValue_loop eq TG k2 w cs x v = Inr w'"
      using other.IH [OF sh] by blast
    have "QtGroupProperty_setChildValue_loop eq TG (Suc k2) w (c # cs) x v = Inr w'"
      using 4 t nm False by (simp add: setChildValue_loop_step)
    then show ?thesis by blast
  qed
qed

text \<open>
  In a forest and for a value equal to itself, with what is nested in it, \<open>setValue\<close>
  leaves the node holding the value, unless it held an equal one, whatever the container
  above holds.
\<close>

lemma setValue_general:
  assumes wf: "wf_tree depth B w" and sv: "self_equal eq v"
  shows "\<exists>k w'. setValue eq k w n v = Inr w' \<and>
      (cls (heap w n) \<noteq> QtGroupProperty \<and> \<not> eq (m_value (heap w n)) v \<longrightarrow>
         m_value (heap w' n) = v)"
proof (cases "eq (m_value (heap w n)) v \<or> cls (heap w n) = QtGroupProperty")
  case True
  then have "setValue eq (Suc 0) w n v = Inr w"
    by (auto simp: setValue.simps split: prop_class.splits)
  then show ?thesis using True by (intro exI [of _ "Suc 0"] exI [of _ w]) auto
next
  case False
  then have ne: "\<not> eq (m_value (heap w n)) v" and ng: "cls (heap w n) \<noteq> QtGroupProperty"
    by simp_all
  let ?w0 = "set_value n v w"
  have wf0: "wf_tree depth B ?w0" using wf_tree_set_value [OF wf] .
  have na: "\<not> ancestor w n n" using not_own_ancestor [OF wf] .
  have finish: ?thesis
    if run: "\<And>k w'. signalValueChange eq k w1 n n = Inr w' \<Longrightarrow>
                setValue eq (Suc (max k k1)) w n v = Inr w'"
      and sh: "same_shape ?w0 w1"
      and fr: "\<forall>a. \<not> ancestor w n a \<longrightarrow> heap w1 a = heap ?w0 a"
    for w1 k1
  proof -
    have sh01: "same_shape w w1" using same_shape_via_set_value [OF sh] .
    have wf1: "wf_tree depth B w1" using same_shape_wf_tree [OF sh01 wf] .
    have an1: "\<And>a c. ancestor w1 a c = ancestor w a c"
      using same_shape_ancestor [OF sh01] .
    obtain k2 w' evs2 where sg: "signalValueChange eq k2 w1 n n = Inr w'"
      and fr2: "\<forall>a. \<not> ancestor w a n \<longrightarrow> heap w' a = heap w1 a"
      using signalValueChange_rises [OF wf1, of eq n n] unfolding an1 by blast
    have 1: "setValue eq (Suc (max k2 k1)) w n v = Inr w'" using run [OF sg] .
    have 2: "m_value (heap w' n) = v" using fr fr2 na by simp
    from 1 2 show ?thesis by blast
  qed
  show ?thesis
  proof (cases "cls (heap w n)")
    case QtGroupProperty
    then show ?thesis using ng by simp
  next
    case QtProperty
    show ?thesis
    proof (rule finish [of ?w0 0])
      show "\<And>k w'. signalValueChange eq k ?w0 n n = Inr w' \<Longrightarrow>
                setValue eq (Suc (max k 0)) w n v = Inr w'"
        using ne QtProperty by (simp add: setValue.simps)
    qed simp_all
  next
    case QtListProperty
    let ?cs = "m_children (heap w n)"
    let ?vl = "pad_to (length ?cs) (toList v)"
    have se: "self_equal eq (?vl ! i)" if "i < length ?cs" for i
      using self_equal_pad_to [OF sv, of i "length ?cs"] that by (simp add: length_pad_to)
    have "\<exists>k w' evs. QtListProperty_setValue_loop eq k ?w0 n ?vl 0 = Inr w' \<and>
      setValue_each eq k ?w0 (zip ?cs ?vl) = Inr w' \<and> same_shape ?w0 w' \<and>
      events w' = events ?w0 @ evs \<and>
      (\<forall>e \<in> set evs. ancestor ?w0 n (sender e)) \<and>
      (\<forall>a. \<not> ancestor ?w0 n a \<longrightarrow> heap w' a = heap ?w0 a) \<and>
      (\<forall>i < length ?cs.
         (cls (heap ?w0 (?cs ! i)) \<noteq> QtGroupProperty \<and>
          \<not> eq (m_value (heap ?w0 (?cs ! i))) (?vl ! i) \<longrightarrow>
            m_value (heap w' (?cs ! i)) = ?vl ! i) \<and>
         (eq (m_value (heap ?w0 (?cs ! i))) (?vl ! i) \<or>
          cls (heap ?w0 (?cs ! i)) = QtGroupProperty \<longrightarrow>
            heap w' (?cs ! i) = heap ?w0 (?cs ! i) \<and>
            (\<forall>e \<in> set evs. sender e \<noteq> ?cs ! i)))"
      by (rule list_phase [OF wf0]) (use QtListProperty se setValue_sinks in simp_all)
    then obtain k1 w1 where lp: "QtListProperty_setValue_loop eq k1 ?w0 n ?vl 0 = Inr w1"
      and sh: "same_shape ?w0 w1"
      and fr: "\<forall>a. \<not> ancestor w n a \<longrightarrow> heap w1 a = heap ?w0 a"
      by auto
    show ?thesis
    proof (rule finish [OF _ sh fr, of k1])
      fix k w' assume "signalValueChange eq k w1 n n = Inr w'"
      then have "signalValueChange eq (max k k1) w1 n n = Inr w'"
        using fuel_mono(4) [of k "max k k1"] by simp
      moreover have "QtListProperty_setValue_loop eq (max k k1) ?w0 n ?vl 0 = Inr w1"
        using fuel_mono(2) [OF _ lp, of "max k k1"] by simp
      ultimately show "setValue eq (Suc (max k k1)) w n v = Inr w'"
        using ne QtListProperty by (simp add: setValue.simps Let_def ensureSize_pad_to)
    qed
  next
    case QtDictProperty
    let ?cs = "m_children (heap w n)"
    let ?vm = "toMap v"
    have "\<exists>k w' evs. QtDictProperty_setValue_loop eq k ?w0 ?vm ?cs = Inr w' \<and>
      setValue_each eq k ?w0 (map (\<lambda>c. (c, map_value ?vm (m_name (heap ?w0 c)))) ?cs) = Inr w' \<and>
      same_shape ?w0 w' \<and> events w' = events ?w0 @ evs \<and>
      (\<forall>e \<in> set evs. ancestor ?w0 n (sender e)) \<and>
      (\<forall>a. \<not> ancestor ?w0 n a \<longrightarrow> heap w' a = heap ?w0 a) \<and>
      (\<forall>c \<in> set ?cs.
         (cls (heap ?w0 c) \<noteq> QtGroupProperty \<and>
          \<not> eq (m_value (heap ?w0 c)) (map_value ?vm (m_name (heap ?w0 c))) \<longrightarrow>
            m_value (heap w' c) = map_value ?vm (m_name (heap ?w0 c))) \<and>
         (eq (m_value (heap ?w0 c)) (map_value ?vm (m_name (heap ?w0 c))) \<or>
          cls (heap ?w0 c) = QtGroupProperty \<longrightarrow>
            heap w' c = heap ?w0 c \<and> (\<forall>e \<in> set evs. sender e \<noteq> c)))"
    proof (rule dict_phase [OF wf0])
      show "cls (heap ?w0 n) = QtDictProperty" using QtDictProperty by simp
      show "?cs = m_children (heap ?w0 n)" by simp
      show "?vm = toMap (m_value (heap ?w0 n))" by simp
      show "self_equal eq (map_value ?vm (m_name (heap ?w0 c)))" for c
        using self_equal_map_value [OF sv] .
      show "\<exists>k w' evs. setValue eq k w1 c y = Inr w' \<and> sinks eq w1 c y w' evs"
        if "wf_tree depth B w1" and "expects w1 c y" and "self_equal eq y" for c w1 y
        using setValue_sinks [OF that] .
    qed
    then obtain k1 w1 where lp: "QtDictProperty_setValue_loop eq k1 ?w0 ?vm ?cs = Inr w1"
      and sh: "same_shape ?w0 w1"
      and fr: "\<forall>a. \<not> ancestor w n a \<longrightarrow> heap w1 a = heap ?w0 a"
      by auto
    show ?thesis
    proof (rule finish [OF _ sh fr, of k1])
      fix k w' assume "signalValueChange eq k w1 n n = Inr w'"
      then have "signalValueChange eq (max k k1) w1 n n = Inr w'"
        using fuel_mono(4) [of k "max k k1"] by simp
      moreover have "QtDictProperty_setValue_loop eq (max k k1) ?w0 ?vm ?cs = Inr w1"
        using fuel_mono(3) [OF _ lp, of "max k k1"] by simp
      ultimately show "setValue eq (Suc (max k k1)) w n v = Inr w'"
        using ne QtDictProperty by (simp add: setValue.simps Let_def)
    qed
  qed
qed

text \<open>
  What \<open>setValue\<close> does on any node of a forest: it returns, touches only the node, what
  is under it and what is above it, leaves everything as it is when the node is a group
  or holds an equal value, and otherwise leaves the node holding the value when the node
  is a plain property or the value is equal to itself.
\<close>

lemma setValue_settles:
  assumes wf: "wf_tree depth B w"
  shows "\<exists>k w'. setValue eq k w n v = Inr w' \<and> same_shape w w' \<and>
      (\<forall>a. a \<noteq> n \<and> \<not> ancestor w n a \<and> \<not> ancestor w a n \<longrightarrow> heap w' a = heap w a) \<and>
      (cls (heap w n) = QtGroupProperty \<or> eq (m_value (heap w n)) v \<longrightarrow> w' = w) \<and>
      (cls (heap w n) \<noteq> QtGroupProperty \<and> \<not> eq (m_value (heap w n)) v \<and>
       (cls (heap w n) = QtProperty \<or> self_equal eq v) \<longrightarrow> m_value (heap w' n) = v)"
proof -
  obtain k w' where s: "setValue eq k w n v = Inr w'" and sh: "same_shape w w'"
    and fr: "\<forall>a. a \<noteq> n \<and> \<not> ancestor w n a \<and> \<not> ancestor w a n \<longrightarrow> heap w' a = heap w a"
    and no: "cls (heap w n) = QtGroupProperty \<or> eq (m_value (heap w n)) v \<longrightarrow> w' = w"
    and pl: "cls (heap w n) = QtProperty \<and> \<not> eq (m_value (heap w n)) v \<longrightarrow>
               m_value (heap w' n) = v"
    using setValue_returns [OF wf, of eq n v] by blast
  have "m_value (heap w' n) = v"
    if g: "cls (heap w n) \<noteq> QtGroupProperty" and d: "\<not> eq (m_value (heap w n)) v"
      and r: "self_equal eq v"
  proof -
    obtain k2 w2 where s2: "setValue eq k2 w n v = Inr w2" and "m_value (heap w2 n) = v"
      using setValue_general [OF wf r, of n] g d by blast
    moreover have "w2 = w'"
      using fuel_mono(1) [OF _ s, of "max k k2"] fuel_mono(1) [OF _ s2, of "max k k2"]
      by simp
    ultimately show ?thesis by simp
  qed
  then show ?thesis using s sh fr no pl by blast
qed

lemma setValue_each_same_value:
  assumes wf0: "wf_tree depth B w0"
  shows "same_shape w0 w \<Longrightarrow> \<forall>a \<in> set as. cls (heap w0 a) \<noteq> QtGroupProperty \<Longrightarrow>
    \<forall>a \<in> set as. \<forall>b \<in> set as. \<not> ancestor w0 a b \<Longrightarrow>
    \<exists>k w'. setValue_each eq k w (map (\<lambda>a. (a, v)) as) = Inr w' \<and> same_shape w w' \<and>
      (\<forall>a \<in> set as.
         (eq (m_value (heap w a)) v \<longrightarrow> m_value (heap w' a) = m_value (heap w a)) \<and>
         (\<not> eq (m_value (heap w a)) v \<and> (cls (heap w0 a) = QtProperty \<or> self_equal eq v) \<longrightarrow>
            m_value (heap w' a) = v)) \<and>
      (\<forall>b. (\<forall>a \<in> set as. b \<noteq> a \<and> \<not> ancestor w0 a b \<and> \<not> ancestor w0 b a) \<longrightarrow>
           heap w' b = heap w b)"
proof (induction as arbitrary: w)
  case Nil
  show ?case by (intro exI [of _ 0] exI [of _ w]) simp
next
  case (Cons a rest)
  note sh = Cons.prems(1)
  have wf: "wf_tree depth B w" using same_shape_wf_tree [OF sh wf0] .
  have an: "\<And>b c. ancestor w b c = ancestor w0 b c" using same_shape_ancestor [OF sh] .
  have cw: "cls (heap w a) = cls (heap w0 a)" by (simp add: same_shape_fields [OF sh])
  have cl: "cls (heap w a) \<noteq> QtGroupProperty"
    using Cons.prems(2) by (simp add: cw)
  obtain k1 w1 where 1: "setValue eq k1 w a v = Inr w1" and sh1: "same_shape w w1"
    and fr1: "\<forall>b. b \<noteq> a \<and> \<not> ancestor w0 a b \<and> \<not> ancestor w0 b a \<longrightarrow> heap w1 b = heap w b"
    and no1: "eq (m_value (heap w a)) v \<longrightarrow> w1 = w"
    and v1: "\<not> eq (m_value (heap w a)) v \<and> (cls (heap w0 a) = QtProperty \<or> self_equal eq v) \<longrightarrow>
               m_value (heap w1 a) = v"
    using setValue_settles [OF wf, of eq a v] cl unfolding an cw by blast
  have sh01: "same_shape w0 w1" using same_shape_trans [OF sh sh1] .
  obtain k2 w' where 2: "setValue_each eq k2 w1 (map (\<lambda>a. (a, v)) rest) = Inr w'"
    and sh2: "same_shape w1 w'"
    and v2: "\<forall>b \<in> set rest.
         (eq (m_value (heap w1 b)) v \<longrightarrow> m_value (heap w' b) = m_value (heap w1 b)) \<and>
         (\<not> eq (m_value (heap w1 b)) v \<and> (cls (heap w0 b) = QtProperty \<or> self_equal eq v) \<longrightarrow>
            m_value (heap w' b) = v)"
    and fr2: "\<forall>b. (\<forall>c \<in> set rest. b \<noteq> c \<and> \<not> ancestor w0 c b \<and> \<not> ancestor w0 b c) \<longrightarrow>
           heap w' b = heap w1 b"
    using Cons.IH [OF sh01] Cons.prems(2,3) by auto
  let ?k = "max k1 k2"
  have "setValue eq ?k w a v = Inr w1" using fuel_mono(1) [OF _ 1, of ?k] by simp
  moreover have "setValue_each eq ?k w1 (map (\<lambda>a. (a, v)) rest) = Inr w'"
    using setValue_each_mono [OF _ 2, of ?k] by simp
  ultimately have 3: "setValue_each eq ?k w (map (\<lambda>a. (a, v)) (a # rest)) = Inr w'" by simp
  have 4: "same_shape w w'" using same_shape_trans [OF sh1 sh2] .
  have first: "(eq (m_value (heap w a)) v \<longrightarrow> m_value (heap w' a) = m_value (heap w a)) \<and>
         (\<not> eq (m_value (heap w a)) v \<and> (cls (heap w0 a) = QtProperty \<or> self_equal eq v) \<longrightarrow>
            m_value (heap w' a) = v)"
  proof (cases "a \<in> set rest")
    case True
    show ?thesis
    proof (cases "eq (m_value (heap w a)) v")
      case e: True
      then have "w1 = w" using no1 by simp
      then show ?thesis using v2 True e by simp
    next
      case False
      show ?thesis
      proof (intro conjI impI)
        assume "eq (m_value (heap w a)) v"
        then show "m_value (heap w' a) = m_value (heap w a)" using False by simp
      next
        assume c: "\<not> eq (m_value (heap w a)) v \<and>
          (cls (heap w0 a) = QtProperty \<or> self_equal eq v)"
        then have "m_value (heap w1 a) = v" using v1 by simp
        then show "m_value (heap w' a) = v" using v2 True c by (cases "eq v v") auto
      qed
    qed
  next
    case False
    then have "\<forall>c \<in> set rest. a \<noteq> c \<and> \<not> ancestor w0 c a \<and> \<not> ancestor w0 a c"
      using Cons.prems(3) by auto
    then have "heap w' a = heap w1 a" using fr2 by simp
    then show ?thesis using v1 no1 by auto
  qed
  have others: "(eq (m_value (heap w b)) v \<longrightarrow> m_value (heap w' b) = m_value (heap w b)) \<and>
         (\<not> eq (m_value (heap w b)) v \<and> (cls (heap w0 b) = QtProperty \<or> self_equal eq v) \<longrightarrow>
            m_value (heap w' b) = v)"
    if b: "b \<in> set rest" for b
  proof (cases "b = a")
    case True
    then show ?thesis using first by simp
  next
    case False
    then have "heap w1 b = heap w b" using fr1 Cons.prems(3) b by simp
    then show ?thesis using v2 b by simp
  qed
  have 5: "\<forall>b \<in> set (a # rest).
         (eq (m_value (heap w b)) v \<longrightarrow> m_value (heap w' b) = m_value (heap w b)) \<and>
         (\<not> eq (m_value (heap w b)) v \<and> (cls (heap w0 b) = QtProperty \<or> self_equal eq v) \<longrightarrow>
            m_value (heap w' b) = v)"
    using first others by simp
  have 6: "\<forall>b. (\<forall>c \<in> set (a # rest). b \<noteq> c \<and> \<not> ancestor w0 c b \<and> \<not> ancestor w0 b c) \<longrightarrow>
           heap w' b = heap w b"
    using fr1 fr2 by simp
  from 3 4 5 6 show ?case by blast
qed

lemma group_reach_below:
  assumes wf: "wf_tree depth B w"
  shows "group_reach TG w (m_children (heap w g)) b \<Longrightarrow> ancestor w g b"
proof (induction rule: group_reach.induct)
  case (root a)
  then show ?case using wf_tree_child [OF wf] by (auto intro: ancestor.parent)
next
  case (deeper b a)
  have "m_parent (heap w a) = Some b" using wf_tree_child [OF wf deeper.hyps(3)] .
  then show ?case using deeper.IH by (rule ancestor.step)
qed

lemma group_reach_above:
  assumes wf: "wf_tree depth B w"
  shows "group_reach TG w (m_children (heap w g)) b \<Longrightarrow> ancestor w a b \<Longrightarrow>
         m_type (heap w a) = TG \<or> a = g \<or> ancestor w a g"
proof (induction rule: group_reach.induct)
  case (root b)
  have "m_parent (heap w b) = Some g" using wf_tree_child [OF wf root.hyps] .
  then show ?case using ancestor_cases [OF root.prems] by auto
next
  case (deeper b' b)
  have "m_parent (heap w b) = Some b'" using wf_tree_child [OF wf deeper.hyps(3)] .
  then have "a = b' \<or> ancestor w a b'" using ancestor_cases [OF deeper.prems] by auto
  then show ?case using deeper.IH deeper.hyps(2) by auto
qed

text \<open>
  Claim C7. Let \<open>g\<close> be a group, in a store where the type tags and the classes agree,
  let \<open>ns\<close> be the walk of its children (which goes under every group, whatever its
  name) and \<open>targets\<close> the nodes of the walk that are not groups and are named \<open>x\<close>: the
  matching nodes reached through groups only. Then \<open>setChildValue x v\<close> is the calls
  \<open>setValue v\<close> on all the targets, in the order of the walk, and does not stop at the first
  one. In a forest it returns, whatever the comparison is. Afterwards a target that held
  a value equal to \<open>v\<close> holds it still, and a target that held a different value holds \<open>v\<close>
  when it is a plain property or \<open>v\<close> is equal to itself, with what is nested in it.
\<close>

theorem setChildValue_group:
  assumes "consistent_types TG w" and "cls (heap w g) = QtGroupProperty"
    and "group_walk TG w (m_children (heap w g)) ns"
    and "targets = filter (\<lambda>a. m_type (heap w a) \<noteq> TG \<and> m_name (heap w a) = x) ns"
  shows "set targets = {a. group_reach TG w (m_children (heap w g)) a \<and>
                          m_type (heap w a) \<noteq> TG \<and> m_name (heap w a) = x} \<and>
    (\<forall>k w'. setValue_each eq k w (map (\<lambda>a. (a, v)) targets) = Inr w' \<longrightarrow>
       (\<exists>k'. setChildValue eq TG k' w g x v = Inr w')) \<and>
    (wf_tree depth B w \<longrightarrow>
       (\<exists>k w'. setChildValue eq TG k w g x v = Inr w' \<and>
          setValue_each eq k w (map (\<lambda>a. (a, v)) targets) = Inr w' \<and>
          same_shape w w' \<and>
          (\<forall>a \<in> set targets.
             (eq (m_value (heap w a)) v \<longrightarrow> m_value (heap w' a) = m_value (heap w a)) \<and>
             (\<not> eq (m_value (heap w a)) v \<and>
              (cls (heap w a) = QtProperty \<or> self_equal eq v) \<longrightarrow>
                m_value (heap w' a) = v))))"
proof -
  let ?cs = "m_children (heap w g)"
  have 1: "set targets = {a. group_reach TG w ?cs a \<and>
                          m_type (heap w a) \<noteq> TG \<and> m_name (heap w a) = x}"
    using group_walk_reach [OF assms(3)] by (auto simp: assms(4))
  have 2: "\<exists>k'. setChildValue eq TG k' w g x v = Inr w'"
    if e: "setValue_each eq k w (map (\<lambda>a. (a, v)) targets) = Inr w'" for k w'
  proof -
    obtain k' where "QtGroupProperty_setChildValue_loop eq TG k' w ?cs x v = Inr w'"
      using group_walk_setChildValue [OF assms(1,3) same_shape_refl] e
      unfolding assms(4) by blast
    then have "setChildValue eq TG (Suc k') w g x v = Inr w'"
      using assms(2) by (simp add: setChildValue.simps)
    then show ?thesis by blast
  qed
  have 3: "\<exists>k w'. setChildValue eq TG k w g x v = Inr w' \<and>
          setValue_each eq k w (map (\<lambda>a. (a, v)) targets) = Inr w' \<and>
          same_shape w w' \<and>
          (\<forall>a \<in> set targets.
             (eq (m_value (heap w a)) v \<longrightarrow> m_value (heap w' a) = m_value (heap w a)) \<and>
             (\<not> eq (m_value (heap w a)) v \<and>
              (cls (heap w a) = QtProperty \<or> self_equal eq v) \<longrightarrow>
                m_value (heap w' a) = v))"
    if wf: "wf_tree depth B w"
  proof -
    have cl: "\<forall>a \<in> set targets. cls (heap w a) \<noteq> QtGroupProperty"
      using assms(1) 1 by (auto simp: consistent_types_def)
    have ap: "\<forall>a \<in> set targets. \<forall>b \<in> set targets. \<not> ancestor w a b"
    proof (intro ballI notI)
      fix a b assume a: "a \<in> set targets" and b: "b \<in> set targets" and ab: "ancestor w a b"
      have ra: "group_reach TG w ?cs a" and ta: "m_type (heap w a) \<noteq> TG"
        and rb: "group_reach TG w ?cs b"
        using a b 1 by auto
      have ga: "ancestor w g a" using group_reach_below [OF wf ra] .
      have "a = g \<or> ancestor w a g" using group_reach_above [OF wf rb ab] ta by simp
      then have "ancestor w a a" using ga ancestor_trans [of w g a a] by auto
      then show False using not_own_ancestor [OF wf] by simp
    qed
    obtain k1 w' where e: "setValue_each eq k1 w (map (\<lambda>a. (a, v)) targets) = Inr w'"
      and sh: "same_shape w w'"
      and vs: "\<forall>a \<in> set targets.
         (eq (m_value (heap w a)) v \<longrightarrow> m_value (heap w' a) = m_value (heap w a)) \<and>
         (\<not> eq (m_value (heap w a)) v \<and> (cls (heap w a) = QtProperty \<or> self_equal eq v) \<longrightarrow>
            m_value (heap w' a) = v)"
      using setValue_each_same_value [OF wf same_shape_refl cl ap, of eq v] by blast
    obtain k2 where s: "setChildValue eq TG k2 w g x v = Inr w'" using 2 [OF e] by blast
    let ?k = "max k1 k2"
    have "setChildValue eq TG ?k w g x v = Inr w'"
      using setChildValue_fuel_mono(1) [OF _ s, of ?k] by simp
    moreover have "setValue_each eq ?k w (map (\<lambda>a. (a, v)) targets) = Inr w'"
      using setValue_each_mono [OF _ e, of ?k] by simp
    ultimately show ?thesis using sh vs by blast
  qed
  show ?thesis using 1 2 3 by blast
qed

lemma wf_tree_example_group: "wf_tree example_group_depth 2 example_group"
  by (auto simp: wf_tree_def tree_inv_def linked_def wired_def layered_def receivers_def
        example_group_def node_def example_group_depth_def)

theorem setChildValue_group_witness:
  "consistent_types 3 example_group \<and> cls (heap example_group 0) = QtGroupProperty \<and>
   group_walk 3 example_group (m_children (heap example_group 0)) [1, 2, 3, 6, 4] \<and>
   [1, 6] = filter (\<lambda>a. m_type (heap example_group a) \<noteq> 3 \<and> m_name (heap example_group a) = ''a'')
              [1, 2, 3, 6, 4] \<and>
   wf_tree example_group_depth 2 example_group \<and>
   \<not> example_equals (m_value (heap example_group 1)) (VInt 9) \<and>
   cls (heap example_group 1) = QtProperty \<and>
   \<not> example_equals (m_value (heap example_group 6)) (VInt 9) \<and>
   cls (heap example_group 6) = QtProperty \<and>
   (\<exists>k w'. setChildValue example_equals 3 k example_group 0 ''a'' (VInt 9) = Inr w' \<and>
      m_value (heap w' 1) = VInt 9 \<and> m_value (heap w' 6) = VInt 9)"
proof -
  have c: "cls (heap example_group 0) = QtGroupProperty"
    and f: "[1, 6] = filter (\<lambda>a. m_type (heap example_group a) \<noteq> 3 \<and>
                               m_name (heap example_group a) = ''a'') [1, 2, 3, 6, 4]"
    and n1: "\<not> example_equals (m_value (heap example_group 1)) (VInt 9)"
    and c1: "cls (heap example_group 1) = QtProperty"
    and n6: "\<not> example_equals (m_value (heap example_group 6)) (VInt 9)"
    and c6: "cls (heap example_group 6) = QtProperty"
    by (simp_all add: example_group_def node_def)
  have "\<exists>k w'. setChildValue example_equals 3 k example_group 0 ''a'' (VInt 9) = Inr w' \<and>
          setValue_each example_equals k example_group (map (\<lambda>a. (a, VInt 9)) [1, 6]) = Inr w' \<and>
          same_shape example_group w' \<and>
          (\<forall>a \<in> set [1, 6 :: addr].
             (example_equals (m_value (heap example_group a)) (VInt 9) \<longrightarrow>
                m_value (heap w' a) = m_value (heap example_group a)) \<and>
             (\<not> example_equals (m_value (heap example_group a)) (VInt 9) \<and>
              (cls (heap example_group a) = QtProperty \<or> self_equal example_equals (VInt 9)) \<longrightarrow>
                m_value (heap w' a) = VInt 9))"
    using setChildValue_group [OF consistent_types_example_group c group_walk_example_group f,
        where eq = example_equals and v = "VInt 9" and depth = example_group_depth and B = 2]
      wf_tree_example_group by blast
  then have "\<exists>k w'. setChildValue example_equals 3 k example_group 0 ''a'' (VInt 9) = Inr w' \<and>
      m_value (heap w' 1) = VInt 9 \<and> m_value (heap w' 6) = VInt 9"
    using n1 c1 n6 c6 by auto
  then show ?thesis
    using consistent_types_example_group c group_walk_example_group f wf_tree_example_group
      n1 c1 n6 c6
    by blast
qed

subsection \<open>The links between parent and child\<close>

lemma linked_iff:
  "linked w \<Longrightarrow> m_parent (heap w c) = Some p \<longleftrightarrow> c \<in> set (m_children (heap w p))"
  by (simp add: linked_def)

lemma well_linked_same_shape:
  "same_shape w w' \<Longrightarrow> well_linked L w \<Longrightarrow> well_linked L w'"
  by (simp add: well_linked_def tree_inv_def linked_def same_shape_fields)

lemma setChildValue_keeps_shape:
  "setChildValue eq TG k w this x v = Inr w' \<Longrightarrow> same_shape w w'"
  "QtGroupProperty_setChildValue_loop eq TG k w cs x v = Inr w' \<Longrightarrow> same_shape w w'"
proof (induction k arbitrary: w this w' cs)
  case 0
  {
    case 1 then show ?case by (simp add: setChildValue.simps)
  next
    case 2 then show ?case by (simp add: QtGroupProperty_setChildValue_loop.simps)
  }
next
  case (Suc k)
  {
    case 1
    then show ?case
      using Suc.IH(2) keeps_shape(1)
      by (auto simp: setChildValue.simps split: if_splits sum.splits option.splits)
  next
    case 2
    show ?case
    proof (cases cs)
      case Nil
      then show ?thesis using "2" by (simp add: QtGroupProperty_setChildValue_loop.simps)
    next
      case (Cons c cs')
      note st = "2" [unfolded Cons setChildValue_loop_step]
      show ?thesis
      proof (cases "m_type (heap w c) = TG")
        case True
        then obtain w1 where a: "setChildValue eq TG k w c x v = Inr w1"
          and b: "QtGroupProperty_setChildValue_loop eq TG k w1 cs' x v = Inr w'"
          using st by (auto split: sum.splits)
        show ?thesis using same_shape_trans [OF Suc.IH(1) [OF a] Suc.IH(2) [OF b]] .
      next
        case False
        show ?thesis
        proof (cases "x = m_name (heap w c)")
          case True
          then obtain w1 where a: "setValue eq k w c v = Inr w1"
            and b: "QtGroupProperty_setChildValue_loop eq TG k w1 cs' x v = Inr w'"
            using st False by (auto split: sum.splits)
          show ?thesis using same_shape_trans [OF keeps_shape(1) [OF a] Suc.IH(2) [OF b]] .
        next
          case nm: False
          then show ?thesis using st False Suc.IH(2) by simp
        qed
      qed
    qed
  }
qed

lemma well_linked_construct:
  assumes "well_linked L w" and "a \<notin> L"
  shows "well_linked (insert a L) (construct w a c t)"
proof -
  have u: "m_children (heap w a) = []" "m_parent (heap w a) = None"
    using assms by (simp_all add: well_linked_def)
  have l: "linked w" and d: "\<And>p. distinct (m_children (heap w p))"
    using assms(1) by (simp_all add: well_linked_def tree_inv_def)
  have na: "\<And>p. a \<notin> set (m_children (heap w p))"
    using linked_iff [OF l, of a] u(2) by simp
  have np: "\<And>c. m_parent (heap w c) \<noteq> Some a"
    using linked_iff [OF l, of _ a] u(1) by simp
  have "linked (construct w a c t)"
    using l na np by (auto simp: linked_def construct_def)
  moreover have "\<And>p. distinct (m_children (heap (construct w a c t) p))"
    using d by (simp add: construct_def)
  moreover have "\<forall>b. b \<notin> insert a L \<longrightarrow>
      m_children (heap (construct w a c t) b) = [] \<and> m_parent (heap (construct w a c t) b) = None"
    using assms(1) by (simp add: well_linked_def construct_def)
  ultimately show ?thesis by (simp add: well_linked_def tree_inv_def)
qed

lemma well_linked_setName: "well_linked L w \<Longrightarrow> well_linked L (setName w a n)"
  by (simp add: well_linked_def tree_inv_def linked_def setName_def)

lemma well_linked_addChild:
  assumes "well_linked L w" and "p \<in> L" and "c \<in> L" and "addChild w p c = Inr w'"
  shows "well_linked L w'"
    and "m_parent (heap w' c) = Some p" and "c \<in> set (m_children (heap w' p))"
proof -
  have np: "m_parent (heap w c) = None"
    using assms(4) by (auto simp: addChild_def split: if_splits)
  have l: "linked w" and d: "\<And>q. distinct (m_children (heap w q))"
    and u: "\<And>a. a \<notin> L \<Longrightarrow> m_children (heap w a) = [] \<and> m_parent (heap w a) = None"
    using assms(1) by (simp_all add: well_linked_def tree_inv_def)
  have nc: "\<And>q. c \<notin> set (m_children (heap w q))"
    using linked_iff [OF l, of c] np by simp
  have h: "heap w' = (heap
        (upd p (\<lambda>x. x\<lparr>m_children := m_children x @ [c]\<rparr>) w))
        (c := (heap (upd p (\<lambda>x. x\<lparr>m_children := m_children x @ [c]\<rparr>) w) c)
               \<lparr>m_parent := Some p\<rparr>)"
    using assms(4) np by (auto simp: addChild_def Let_def)
  show "m_parent (heap w' c) = Some p" by (simp add: h)
  show "c \<in> set (m_children (heap w' p))" by (simp add: h)
  have "linked w'"
    using l nc np unfolding linked_def h by auto
  moreover have "\<And>q. distinct (m_children (heap w' q))"
    using d nc by (simp add: h)
  moreover have "\<forall>a. a \<notin> L \<longrightarrow> m_children (heap w' a) = [] \<and> m_parent (heap w' a) = None"
    using u assms(2,3) by (auto simp: h)
  ultimately show "well_linked L w'" by (simp add: well_linked_def tree_inv_def)
qed

lemma well_linked_removeChild_as:
  assumes "well_linked L w" and "removeChild_as cl w p c = Inr w'"
  shows "well_linked L w'"
    and "m_parent (heap w' c) = None" and "c \<notin> set (m_children (heap w' p))"
    and "\<And>a. a \<noteq> p \<Longrightarrow> m_children (heap w' a) = m_children (heap w a)"
    and "\<And>a. a \<noteq> c \<Longrightarrow> m_parent (heap w' a) = m_parent (heap w a)"
    and "set (m_children (heap w' p)) \<subseteq> set (m_children (heap w p))"
proof -
  have pc: "m_parent (heap w c) = Some p"
    using assms(2) by (auto simp: removeChild_as_def split: if_splits)
  have l: "linked w" and d: "\<And>q. distinct (m_children (heap w q))"
    and u: "\<And>a. a \<notin> L \<Longrightarrow> m_children (heap w a) = [] \<and> m_parent (heap w a) = None"
    using assms(1) by (simp_all add: well_linked_def tree_inv_def)
  have cp: "c \<in> set (m_children (heap w p))" using l pc by (simp add: linked_def)
  have h: "\<And>a. heap w' a = (heap w a)
              \<lparr>m_children := (if a = p then remove1 c (m_children (heap w a))
                              else m_children (heap w a)),
               m_parent := (if a = c then None else m_parent (heap w a))\<rparr>"
    using removeChild_as_linked [OF pc cp, of cl] assms(2) by auto
  show "m_parent (heap w' c) = None" by (simp add: h)
  show "c \<notin> set (m_children (heap w' p))" using d by (simp add: h)
  show "\<And>a. a \<noteq> p \<Longrightarrow> m_children (heap w' a) = m_children (heap w a)" by (simp add: h)
  show "\<And>a. a \<noteq> c \<Longrightarrow> m_parent (heap w' a) = m_parent (heap w a)" by (simp add: h)
  show "set (m_children (heap w' p)) \<subseteq> set (m_children (heap w p))"
    using set_remove1_subset [of c "m_children (heap w p)"] by (simp add: h)
  have "linked w'"
    unfolding linked_def
  proof (intro allI)
    fix q b
    show "m_parent (heap w' b) = Some q \<longleftrightarrow> b \<in> set (m_children (heap w' q))"
    proof (cases "b = c")
      case True
      have "c \<notin> set (m_children (heap w q))" if "q \<noteq> p"
        using linked_iff [OF l, of c q] pc that by simp
      then show ?thesis using True d [of p] by (auto simp: h)
    next
      case False
      then show ?thesis using l d [of p] by (auto simp: h linked_def)
    qed
  qed
  moreover have "\<And>q. distinct (m_children (heap w' q))"
    using d by (simp add: h)
  moreover have "\<forall>a. a \<notin> L \<longrightarrow> m_children (heap w' a) = [] \<and> m_parent (heap w' a) = None"
    using u by (auto simp: h)
  ultimately show "well_linked L w'" by (simp add: well_linked_def tree_inv_def)
qed

lemma well_linked_removeFromParent:
  assumes "well_linked L w" and "removeFromParent w c = Inr w'"
  shows "well_linked L w'" and "m_parent (heap w' c) = None"
    and "m_parent (heap w c) \<noteq> Some c \<Longrightarrow> m_children (heap w' c) = m_children (heap w c)"
proof -
  show "well_linked L w'"
    using assms well_linked_removeChild_as(1)
    by (auto simp: removeFromParent_def removeChild_def split: option.splits)
  show "m_parent (heap w' c) = None"
    using assms well_linked_removeChild_as(2)
    by (auto simp: removeFromParent_def removeChild_def split: option.splits)
  show "m_children (heap w' c) = m_children (heap w c)" if "m_parent (heap w c) \<noteq> Some c"
  proof (cases "m_parent (heap w c)")
    case None
    then show ?thesis using assms(2) by (simp add: removeFromParent_def)
  next
    case (Some p)
    then have r: "removeChild_as (cls (heap w p)) w p c = Inr w'" and ne: "c \<noteq> p"
      using assms(2) that by (auto simp: removeFromParent_def removeChild_def)
    show ?thesis using well_linked_removeChild_as(4) [OF assms(1) r ne] .
  qed
qed

lemma well_linked_removeAllChildren_loop:
  "well_linked L w \<Longrightarrow> removeAllChildren_loop cl w p temp = Inr w' \<Longrightarrow> well_linked L w'"
proof (induction temp arbitrary: w)
  case Nil
  then show ?case by simp
next
  case (Cons c temp)
  then obtain w1 where 1: "removeChild_as cl w p c = Inr w1"
    and 2: "removeAllChildren_loop cl w1 p temp = Inr w'"
    by (auto split: sum.splits)
  show ?case
    using Cons.IH [OF well_linked_removeChild_as(1) [OF Cons.prems(1) 1] 2] .
qed

lemma well_linked_removeAllChildren_as:
  assumes "well_linked L w" and "removeAllChildren_as cl w p = Inr w'"
  shows "well_linked L w'" and "m_children (heap w' p) = []"
    and "m_parent (heap w' p) = (if p \<in> set (m_children (heap w p)) then None
                                 else m_parent (heap w p))"
proof -
  let ?cs = "m_children (heap w p)"
  have r: "removeAllChildren_loop cl w p ?cs = Inr w'"
    using assms(2) by (simp add: removeAllChildren_as_def)
  show "well_linked L w'"
    using well_linked_removeAllChildren_loop [OF assms(1) r] .
  have l: "linked w" and d: "distinct ?cs"
    using assms(1) by (simp_all add: well_linked_def tree_inv_def)
  have "\<forall>c \<in> set ?cs. m_parent (heap w c) = Some p" using l by (simp add: linked_def)
  then obtain w'' where "removeAllChildren_loop cl w p ?cs = Inr w''"
    and h: "\<And>a. heap w'' a = (heap w a)
              \<lparr>m_children := (if a = p then filter (\<lambda>c. c \<notin> set ?cs) (m_children (heap w a))
                              else m_children (heap w a)),
               m_parent := (if a \<in> set ?cs then None else m_parent (heap w a))\<rparr>"
    using removeAllChildren_loop_result [OF d d, where ?c0.0 = cl] by auto
  then have e: "w'' = w'" using r by simp
  show "m_children (heap w' p) = []" using h [of p] unfolding e by simp
  show "m_parent (heap w' p) = (if p \<in> set ?cs then None else m_parent (heap w p))"
    using h [of p] unfolding e by simp
qed

lemma well_linked_emit [simp]: "well_linked L (emit e w) = well_linked L w"
  by (simp add: well_linked_def tree_inv_def linked_def)

lemma well_linked_destructor:
  assumes "well_linked L w" and "destructor w a = Inr w'"
  shows "well_linked (L - {a}) (QObject_destroyed w' a)"
proof -
  let ?w0 = "emit (PropertyRemoved a a (m_parent (heap w a))) w"
  obtain w1 where 1: "removeAllChildren_as QtProperty ?w0 a = Inr w1"
    and 2: "removeFromParent w1 a = Inr w'"
    using assms(2) by (auto simp: destructor_def Let_def split: sum.splits)
  have wl0: "well_linked L ?w0" using assms(1) by simp
  note A = well_linked_removeAllChildren_as [OF wl0 1]
  have "linked w1" using A(1) by (simp add: well_linked_def tree_inv_def)
  then have "m_parent (heap w1 a) \<noteq> Some a" using A(2) by (auto simp: linked_def)
  then have c: "m_children (heap w' a) = []"
    using well_linked_removeFromParent(3) [OF A(1) 2] A(2) by simp
  have p: "m_parent (heap w' a) = None"
    using well_linked_removeFromParent(2) [OF A(1) 2] .
  have "well_linked L w'" using well_linked_removeFromParent(1) [OF A(1) 2] .
  then show ?thesis
    using c p by (auto simp: well_linked_def tree_inv_def linked_def QObject_destroyed_def)
qed

lemma reachable_well_linked: "reachable L w \<Longrightarrow> well_linked L w"
proof (induction rule: reachable.induct)
  case (start w)
  then show ?case by (simp add: well_linked_def tree_inv_def linked_def)
next
  case (constructed L w a c t)
  then show ?case by (simp add: well_linked_construct)
next
  case (renamed L w a n)
  then show ?case by (simp add: well_linked_setName)
next
  case (added L w p c w')
  then show ?case using well_linked_addChild(1) by blast
next
  case (removed L w p c w')
  then show ?case using well_linked_removeChild_as(1) by (auto simp: removeChild_def)
next
  case (detached L w c w')
  then show ?case using well_linked_removeFromParent(1) by blast
next
  case (emptied L w p w')
  then show ?case
    using well_linked_removeAllChildren_as(1) by (auto simp: removeAllChildren_def)
next
  case (destroyed L w a w')
  then show ?case using well_linked_destructor by blast
next
  case (valued L w a k v w')
  then show ?case using well_linked_same_shape [OF keeps_shape(1)] by blast
next
  case (child_valued L w a TYPE_GROUP k x v w')
  then show ?case using well_linked_same_shape [OF setChildValue_keeps_shape(1)] by blast
qed


lemma tree_inv_well_linked: "tree_inv w \<longleftrightarrow> well_linked UNIV w"
  by (simp add: well_linked_def)

lemma reachable_example_built: "reachable {1, 0} example_built"
proof -
  have "reachable {} example_start"
    by (rule reachable.start) (simp add: example_start_def node_def)
  then have "reachable {0} (construct example_start 0 QtListProperty 1)"
    by (rule reachable.constructed) simp
  then have r: "reachable {1, 0}
      (construct (construct example_start 0 QtListProperty 1) 1 QtProperty 0)"
    by (rule reachable.constructed) simp
  have a: "addChild (construct (construct example_start 0 QtListProperty 1) 1 QtProperty 0) 0 1 =
      Inr example_built"
    by (auto simp: addChild_def Let_def construct_def example_built_def example_start_def
          node_def upd_def emit_def onChildAdd_def connect_def fun_eq_iff)
  show ?thesis by (rule reachable.added [OF r _ _ a]) simp_all
qed

text \<open>
  Claim C2. In every store that the operations can reach, a child's parent back-reference
  is \<open>p\<close> exactly if the child is in the child sequence of \<open>p\<close>, and no node is in the
  child sequences of two nodes. \<open>addChild\<close> fails its assertion when the child has a parent,
  and otherwise sets membership and back-reference together; \<open>removeChild\<close> fails its
  assertion when the child's parent is not \<open>this\<close>, and otherwise clears both together.
  Each of \<open>addChild\<close>, \<open>removeChild\<close>, \<open>removeFromParent\<close>, \<open>removeAllChildren\<close> and the
  destructor leaves the links consistent. (The rules of \<open>reachable\<close> close the reachable
  stores under all these operations, so the first two statements hold after any sequence
  of them.)
\<close>

theorem links_stay_in_sync:
  assumes "reachable L w"
  shows "(\<forall>p c. m_parent (heap w c) = Some p \<longleftrightarrow> c \<in> set (m_children (heap w p))) \<and>
    (\<forall>p p' c. c \<in> set (m_children (heap w p)) \<longrightarrow> c \<in> set (m_children (heap w p')) \<longrightarrow>
       p = p') \<and>
    (\<forall>p c. m_parent (heap w c) \<noteq> None \<longrightarrow> addChild w p c = Inl AssertionFailed) \<and>
    (\<forall>p c w'. addChild w p c = Inr w' \<longrightarrow>
       linked w' \<and> m_parent (heap w' c) = Some p \<and> c \<in> set (m_children (heap w' p))) \<and>
    (\<forall>p c. m_parent (heap w c) \<noteq> Some p \<longrightarrow> removeChild w p c = Inl AssertionFailed) \<and>
    (\<forall>p c w'. removeChild w p c = Inr w' \<longrightarrow>
       linked w' \<and> m_parent (heap w' c) = None \<and> c \<notin> set (m_children (heap w' p))) \<and>
    (\<forall>c w'. removeFromParent w c = Inr w' \<longrightarrow> linked w' \<and> m_parent (heap w' c) = None) \<and>
    (\<forall>p w'. removeAllChildren w p = Inr w' \<longrightarrow> linked w' \<and> m_children (heap w' p) = []) \<and>
    (\<forall>a w'. destructor w a = Inr w' \<longrightarrow>
       linked w' \<and> m_parent (heap w' a) = None \<and> m_children (heap w' a) = [])"
proof -
  have wl: "well_linked L w" using reachable_well_linked [OF assms] .
  then have ti: "tree_inv w" by (simp add: well_linked_def)
  then have l: "linked w" by (simp add: tree_inv_def)
  have u: "well_linked UNIV w" using ti by (simp add: tree_inv_well_linked)
  have lk: "linked w'" if "well_linked M w'" for M w'
    using that by (simp add: well_linked_def tree_inv_def)
  have 1: "\<forall>p c. m_parent (heap w c) = Some p \<longleftrightarrow> c \<in> set (m_children (heap w p))"
    using l by (simp add: linked_def)
  have 2: "\<forall>p p' c. c \<in> set (m_children (heap w p)) \<longrightarrow>
       c \<in> set (m_children (heap w p')) \<longrightarrow> p = p'"
    using linked_iff [OF l] by (metis option.inject)
  have 3: "\<forall>p c. m_parent (heap w c) \<noteq> None \<longrightarrow> addChild w p c = Inl AssertionFailed"
    by (simp add: addChild_def)
  have 4: "\<forall>p c w'. addChild w p c = Inr w' \<longrightarrow>
       linked w' \<and> m_parent (heap w' c) = Some p \<and> c \<in> set (m_children (heap w' p))"
    using well_linked_addChild [OF u] lk by blast
  have 5: "\<forall>p c. m_parent (heap w c) \<noteq> Some p \<longrightarrow> removeChild w p c = Inl AssertionFailed"
    by (simp add: removeChild_def removeChild_as_def)
  have 6: "\<forall>p c w'. removeChild w p c = Inr w' \<longrightarrow>
       linked w' \<and> m_parent (heap w' c) = None \<and> c \<notin> set (m_children (heap w' p))"
    using well_linked_removeChild_as(1,2,3) [OF u] lk unfolding removeChild_def by blast
  have 7: "\<forall>c w'. removeFromParent w c = Inr w' \<longrightarrow> linked w' \<and> m_parent (heap w' c) = None"
    using well_linked_removeFromParent(1,2) [OF u] lk by blast
  have 8: "\<forall>p w'. removeAllChildren w p = Inr w' \<longrightarrow> linked w' \<and> m_children (heap w' p) = []"
    using well_linked_removeAllChildren_as(1,2) [OF u] lk unfolding removeAllChildren_def by blast
  have 9: "linked w' \<and> m_parent (heap w' a) = None \<and> m_children (heap w' a) = []"
    if d: "destructor w a = Inr w'" for a w'
  proof -
    have "well_linked (UNIV - {a}) (QObject_destroyed w' a)"
      using well_linked_destructor [OF u d] .
    then show ?thesis
      by (simp add: well_linked_def tree_inv_def linked_def QObject_destroyed_def)
  qed
  from 1 2 3 4 5 6 7 8 9 show ?thesis by blast
qed

theorem links_stay_in_sync_witness:
  "reachable {1, 0} example_built \<and> m_parent (heap example_built 1) = Some 0 \<and>
   1 \<in> set (m_children (heap example_built 0)) \<and>
   addChild example_built 0 1 = Inl AssertionFailed \<and>
   (\<exists>w'. removeChild example_built 0 1 = Inr w' \<and> m_parent (heap w' 1) = None \<and>
      m_children (heap w' 0) = [])"
proof -
  note t = links_stay_in_sync [OF reachable_example_built]
  have t1: "m_parent (heap example_built c) = Some p \<longleftrightarrow>
      c \<in> set (m_children (heap example_built p))" for p c
    using conjunct1 [OF t] by (rule allE) (erule allE)
  have t3: "m_parent (heap example_built c) \<noteq> None \<Longrightarrow>
      addChild example_built p c = Inl AssertionFailed" for p c
    using conjunct1 [OF conjunct2 [OF conjunct2 [OF t]]] by (elim allE impE) assumption+
  have p: "m_parent (heap example_built 1) = Some 0"
    by (simp add: example_built_def node_def)
  have c: "1 \<in> set (m_children (heap example_built 0))"
    using t1 [of 1 0] p by (rule iffD1)
  have a: "addChild example_built 0 1 = Inl AssertionFailed"
    by (rule t3) (simp only: p option.distinct not_False_eq_True)
  have r: "\<exists>w'. removeChild example_built 0 1 = Inr w' \<and> m_parent (heap w' 1) = None \<and>
      m_children (heap w' 0) = []"
    by (simp add: removeChild_def removeChild_as_def Let_def example_built_def node_def
          upd_def emit_def onChildRemove_def disconnect_def)
  show ?thesis by (intro conjI reachable_example_built p c a r)
qed

end
